theory Spec2Isabelle
  imports Main
begin

section \<open>Faults and checked vector access\<close>

text \<open>
  The program indexes \<open>std::vector\<close>s with \<open>operator[]\<close>, which has no defined
  behaviour out of range, and it contains two \<open>assert\<close>s. Both are results of the model:
  every operation returns \<open>error + 'a\<close>. The third fault stands for a walk along the
  \<open>next\<close>/\<open>prev\<close> links of an edge list that never reaches \<open>NULL_EIndex\<close>.
  Vertex and edge indices are C++ \<open>int\<close>s; no arithmetic other than counting up to the
  size of a vector is done on them, so they are modelled as unbounded \<open>int\<close>.
\<close>

datatype error = OutOfBounds | AssertionFailed | Diverges

abbreviation NULL_VIndex :: int where "NULL_VIndex \<equiv> - 1"
abbreviation NULL_EIndex :: int where "NULL_EIndex \<equiv> - 1"

fun bnd :: "error + 'a \<Rightarrow> ('a \<Rightarrow> error + 'b) \<Rightarrow> error + 'b" where
  "bnd (Inl e) f = Inl e"
| "bnd (Inr x) f = f x"

definition andalso :: "error + bool \<Rightarrow> error + bool \<Rightarrow> error + bool" where
  "andalso a b = bnd a (\<lambda>x. if x then b else Inr False)"

definition in_range :: "'a list \<Rightarrow> int \<Rightarrow> bool" where
  "in_range xs i \<longleftrightarrow> 0 \<le> i \<and> i < int (length xs)"

definition at :: "'a list \<Rightarrow> int \<Rightarrow> error + 'a" where
  "at xs i = (if in_range xs i then Inr (xs ! nat i) else Inl OutOfBounds)"

definition upd :: "'a list \<Rightarrow> int \<Rightarrow> 'a \<Rightarrow> error + 'a list" where
  "upd xs i x = (if in_range xs i then Inr (xs[nat i := x]) else Inl OutOfBounds)"

section \<open>Graph\<close>

text \<open>
  \<open>struct Edge\<close> and \<open>struct Graph\<close>. The fields of \<open>Edge\<close> carry the prefix
  \<open>edge_\<close> (the source calls them \<open>u\<close>, \<open>v\<close>, \<open>label\<close>, \<open>next\<close>, \<open>prev\<close>).
  A \<open>std::set<VIndex>\<close> is an \<open>int set\<close>; where the source iterates over one, the model
  iterates over \<open>sorted_list_of_set\<close>, the ascending order of the C++ iterator.
\<close>

record Edge =
  edge_u :: int
  edge_v :: int
  edge_label :: int
  edge_next :: int
  edge_prev :: int

record Graph =
  edge_count :: int
  vertex_count :: int
  vertex :: "int list"
  head_edge :: "int list"
  rev_head_edge :: "int list"
  edge :: "Edge list"
  pred :: "int set list"
  succ :: "int set list"

definition initial :: Graph where
  "initial = \<lparr>edge_count = 0, vertex_count = 0, vertex = [], head_edge = [],
     rev_head_edge = [], edge = [], pred = [], succ = []\<rparr>"

definition addVertex :: "Graph \<Rightarrow> int \<Rightarrow> Graph" where
  "addVertex g l =
     g\<lparr>vertex := vertex g @ [l],
       head_edge := head_edge g @ [NULL_EIndex],
       rev_head_edge := rev_head_edge g @ [NULL_EIndex],
       pred := pred g @ [{}],
       succ := succ g @ [{}],
       vertex_count := vertex_count g + 1\<rparr>"

definition addEdge :: "Graph \<Rightarrow> int \<Rightarrow> int \<Rightarrow> int \<Rightarrow> error + Graph" where
  "addEdge g a b l =
     bnd (at (head_edge g) a) (\<lambda>hn.
     bnd (at (rev_head_edge g) b) (\<lambda>hp.
     bnd (upd (head_edge g) a (edge_count g)) (\<lambda>he.
     bnd (upd (rev_head_edge g) b (edge_count g)) (\<lambda>rhe.
     bnd (at (pred g) b) (\<lambda>pb.
     bnd (upd (pred g) b (insert a pb)) (\<lambda>pr.
     bnd (at (succ g) a) (\<lambda>sa.
     bnd (upd (succ g) a (insert b sa)) (\<lambda>su.
       Inr (g\<lparr>edge := edge g @ [\<lparr>edge_u = a, edge_v = b, edge_label = l,
                                  edge_next = hn, edge_prev = hp\<rparr>],
              head_edge := he,
              rev_head_edge := rhe,
              edge_count := edge_count g + 1,
              pred := pr,
              succ := su\<rparr>)))))))))"

text \<open>
  \<open>readGraph\<close> builds every graph from \<open>initial\<close> by \<open>addVertex\<close> and \<open>addEdge\<close>;
  \<open>build\<close> replays such a sequence of calls.
\<close>

datatype cmd = V int | E int int int

fun build :: "Graph \<Rightarrow> cmd list \<Rightarrow> error + Graph" where
  "build g [] = Inr g"
| "build g (V l # cs) = build (addVertex g l) cs"
| "build g (E a b l # cs) = bnd (addEdge g a b l) (\<lambda>g'. build g' cs)"

section \<open>State\<close>

text \<open>
  \<open>struct State\<close>. Its fields \<open>vertex_count\<close> and \<open>subisomorphism\<close> carry the prefix
  \<open>s_\<close>, since \<open>Graph\<close> has a field and the program a function of these names.
\<close>

record State =
  s_vertex_count :: int
  s_subisomorphism :: bool
  in_1 :: "int set"
  in_2 :: "int set"
  out_1 :: "int set"
  out_2 :: "int set"
  M1 :: "int set"
  M2 :: "int set"
  core_1 :: "int list"
  core_2 :: "int list"

definition newState :: "int \<Rightarrow> bool \<Rightarrow> State" where
  "newState count sub =
     \<lparr>s_vertex_count = count, s_subisomorphism = sub,
      in_1 = {}, in_2 = {}, out_1 = {}, out_2 = {}, M1 = {}, M2 = {},
      core_1 = replicate (nat count) NULL_VIndex,
      core_2 = replicate (nat count) NULL_VIndex\<rparr>"

subsection \<open>genCandiPairSet\<close>

text \<open>
  \<open>scan_down c k\<close> is the loop
  \<open>for (max_vid2 = k - 1; max_vid2 >= 0 && c[max_vid2] != NULL_VIndex; max_vid2--)\<close>,
  and \<open>unmapped_pairs\<close> the loop that pushes \<open>(vid, max_vid2)\<close> for the unmapped
  \<open>vid\<close>.
\<close>

fun scan_down :: "int list \<Rightarrow> nat \<Rightarrow> error + int" where
  "scan_down c 0 = Inr (- 1)"
| "scan_down c (Suc k) =
     bnd (at c (int k)) (\<lambda>x. if x \<noteq> NULL_VIndex then scan_down c k else Inr (int k))"

fun unmapped_pairs :: "int list \<Rightarrow> int \<Rightarrow> int list \<Rightarrow> error + (int \<times> int) list" where
  "unmapped_pairs c m [] = Inr []"
| "unmapped_pairs c m (vid # vids) =
     bnd (at c vid) (\<lambda>x.
     bnd (unmapped_pairs c m vids) (\<lambda>P.
       Inr (if x = NULL_VIndex then (vid, m) # P else P)))"

definition max_of :: "int set \<Rightarrow> int" where
  "max_of A = fold max (sorted_list_of_set A) (- 1)"

definition genCandiPairSet :: "State \<Rightarrow> error + (int \<times> int) list" where
  "genCandiPairSet s =
     (if out_1 s \<noteq> {} \<and> out_2 s \<noteq> {} then
        Inr (map (\<lambda>vid1. (vid1, max_of (out_2 s))) (sorted_list_of_set (out_1 s)))
      else if in_1 s \<noteq> {} \<and> in_2 s \<noteq> {} then
        Inr (map (\<lambda>vid1. (vid1, max_of (in_2 s))) (sorted_list_of_set (in_1 s)))
      else
        bnd (if s_vertex_count s < 0 then Inr (s_vertex_count s - 1)
             else scan_down (core_2 s) (nat (s_vertex_count s))) (\<lambda>max_vid2.
          unmapped_pairs (core_1 s) max_vid2 [0..s_vertex_count s - 1]))"

subsection \<open>addNewPair\<close>

text \<open>
  \<open>add_unmapped c acc us\<close> is the loop
  \<open>for (auto u: us) if (c[u] == NULL_VIndex) acc.insert(u)\<close>.
\<close>

fun add_unmapped :: "int list \<Rightarrow> int set \<Rightarrow> int list \<Rightarrow> error + int set" where
  "add_unmapped c acc [] = Inr acc"
| "add_unmapped c acc (a # as) =
     bnd (at c a) (\<lambda>x. add_unmapped c (if x = NULL_VIndex then insert a acc else acc) as)"

definition addNewPair ::
  "State \<Rightarrow> int \<Rightarrow> int \<Rightarrow> int set \<Rightarrow> int set \<Rightarrow> int set \<Rightarrow> int set \<Rightarrow> error + State" where
  "addNewPair s n m pred1 pred2 succ1 succ2 =
     bnd (upd (core_1 s) n m) (\<lambda>c1.
     bnd (upd (core_2 s) m n) (\<lambda>c2.
     bnd (add_unmapped c1 (in_1 s) (sorted_list_of_set pred1)) (\<lambda>i1.
     bnd (add_unmapped c2 (in_2 s) (sorted_list_of_set pred2)) (\<lambda>i2.
     bnd (add_unmapped c1 (out_1 s) (sorted_list_of_set succ1)) (\<lambda>o1.
     bnd (add_unmapped c2 (out_2 s) (sorted_list_of_set succ2)) (\<lambda>o2.
       Inr (s\<lparr>M1 := insert n (M1 s), M2 := insert m (M2 s),
              core_1 := c1, core_2 := c2,
              in_1 := i1 - {n}, in_2 := i2 - {m},
              out_1 := o1 - {n}, out_2 := o2 - {m}\<rparr>)))))))"

subsection \<open>The feasibility rules\<close>

text \<open>
  \<open>checkPredRule\<close> and \<open>checkSuccRule\<close> are the same code up to the direction of the
  edges: the first walks \<open>head_edge\<close>/\<open>next\<close> and compares the targets \<open>v\<close>, the second
  walks \<open>rev_head_edge\<close>/\<open>prev\<close> and compares the sources \<open>u\<close>. The endpoint and the
  link are parameters \<open>endp\<close> and \<open>link\<close> of the two loops.

  A walk over an edge vector of length \<open>k\<close> that makes more than \<open>k\<close> steps inside the
  vector has seen one index twice, so it is on a cycle of links; the loop body changes
  nothing, so the program then runs forever. The walks get \<open>k + 1\<close> steps and report
  \<open>Diverges\<close> beyond.
\<close>

fun find_edge ::
  "(Edge \<Rightarrow> int) \<Rightarrow> (Edge \<Rightarrow> int) \<Rightarrow> nat \<Rightarrow> Edge list \<Rightarrow> int \<Rightarrow> int \<Rightarrow> int \<Rightarrow> error + bool" where
  "find_edge endp link 0 es eid2 map_vid l = Inl Diverges"
| "find_edge endp link (Suc k) es eid2 map_vid l =
     (if eid2 = NULL_EIndex then Inr False
      else bnd (at es eid2) (\<lambda>e.
        if endp e = map_vid \<and> edge_label e = l then Inr True
        else find_edge endp link k es (link e) map_vid l))"

fun edges_ok ::
  "(Edge \<Rightarrow> int) \<Rightarrow> (Edge \<Rightarrow> int) \<Rightarrow> nat \<Rightarrow> Edge list \<Rightarrow> int list \<Rightarrow>
     Edge list \<Rightarrow> int list \<Rightarrow> int \<Rightarrow> int \<Rightarrow> error + bool" where
  "edges_ok endp link 0 es1 c1 es2 heads2 m eid = Inl Diverges"
| "edges_ok endp link (Suc k) es1 c1 es2 heads2 m eid =
     (if eid = NULL_EIndex then Inr True
      else bnd (at es1 eid) (\<lambda>e.
           bnd (at c1 (endp e)) (\<lambda>map_vid.
             if map_vid = NULL_VIndex then edges_ok endp link k es1 c1 es2 heads2 m (link e)
             else bnd (at heads2 m) (\<lambda>h2.
                  bnd (find_edge endp link (Suc (length es2)) es2 h2 map_vid (edge_label e))
                    (\<lambda>flag.
                    if \<not> flag then Inr False
                    else edges_ok endp link k es1 c1 es2 heads2 m (link e))))))"

text \<open>
  The second loop of both rules: for every \<open>v2\<close> of \<open>M2 \<inter> adj2[m]\<close>, the vertex
  \<open>core_2[v2]\<close> is asserted to be mapped and must be in \<open>adj1[n]\<close>.
\<close>

fun mapped_back :: "int list \<Rightarrow> int set list \<Rightarrow> int \<Rightarrow> int list \<Rightarrow> error + bool" where
  "mapped_back c2 adj1 n [] = Inr True"
| "mapped_back c2 adj1 n (v2 # vs) =
     bnd (at c2 v2) (\<lambda>v1.
       if v1 = NULL_VIndex then Inl AssertionFailed
       else bnd (at adj1 n) (\<lambda>A.
         if v1 \<notin> A then Inr False else mapped_back c2 adj1 n vs))"

definition checkPredRule :: "State \<Rightarrow> Graph \<Rightarrow> Graph \<Rightarrow> int \<Rightarrow> int \<Rightarrow> error + bool" where
  "checkPredRule s G1 G2 n m =
     bnd (at (head_edge G1) n) (\<lambda>h1.
     bnd (edges_ok edge_v edge_next (Suc (length (edge G1))) (edge G1) (core_1 s)
            (edge G2) (head_edge G2) m h1) (\<lambda>ok.
       if \<not> ok then Inr False
       else bnd (at (pred G2) m) (\<lambda>p2.
         mapped_back (core_2 s) (pred G1) n (sorted_list_of_set (M2 s \<inter> p2)))))"

definition checkSuccRule :: "State \<Rightarrow> Graph \<Rightarrow> Graph \<Rightarrow> int \<Rightarrow> int \<Rightarrow> error + bool" where
  "checkSuccRule s G1 G2 n m =
     bnd (at (rev_head_edge G1) n) (\<lambda>h1.
     bnd (edges_ok edge_u edge_prev (Suc (length (edge G1))) (edge G1) (core_1 s)
            (edge G2) (rev_head_edge G2) m h1) (\<lambda>ok.
       if \<not> ok then Inr False
       else bnd (at (succ G2) m) (\<lambda>s2.
         mapped_back (core_2 s) (succ G1) n (sorted_list_of_set (M2 s \<inter> s2)))))"

definition set_intersection_size :: "int set \<Rightarrow> int set \<Rightarrow> int" where
  "set_intersection_size a b = int (length (filter (\<lambda>k. k \<in> b) (sorted_list_of_set a)))"

definition checkInRule :: "State \<Rightarrow> Graph \<Rightarrow> Graph \<Rightarrow> int \<Rightarrow> int \<Rightarrow> error + bool" where
  "checkInRule s G1 G2 n m =
     bnd (at (succ G1) n) (\<lambda>s1.
     bnd (at (succ G2) m) (\<lambda>s2.
       let card_succ_1 = set_intersection_size (in_1 s) s1;
           card_succ_2 = set_intersection_size (in_2 s) s2 in
       if \<not> s_subisomorphism s \<and> card_succ_1 \<noteq> card_succ_2 then Inr False
       else if s_subisomorphism s \<and> card_succ_1 > card_succ_2 then Inr False
       else
         bnd (at (pred G1) n) (\<lambda>p1.
         bnd (at (pred G2) m) (\<lambda>p2.
           let card_pred_1 = set_intersection_size (in_1 s) p1;
               card_pred_2 = set_intersection_size (in_2 s) p2 in
           if s_subisomorphism s \<and> card_pred_1 \<noteq> card_pred_2 then Inr False
           else if s_subisomorphism s \<and> card_pred_1 > card_pred_2 then Inr False
           else Inr True))))"

definition checkOutRule :: "State \<Rightarrow> Graph \<Rightarrow> Graph \<Rightarrow> int \<Rightarrow> int \<Rightarrow> error + bool" where
  "checkOutRule s G1 G2 n m =
     bnd (at (succ G1) n) (\<lambda>s1.
     bnd (at (succ G2) m) (\<lambda>s2.
       let card_succ_1 = set_intersection_size (out_1 s) s1;
           card_succ_2 = set_intersection_size (out_2 s) s2 in
       if \<not> s_subisomorphism s \<and> card_succ_1 \<noteq> card_succ_2 then Inr False
       else if s_subisomorphism s \<and> card_succ_1 > card_succ_2 then Inr False
       else
         bnd (at (pred G1) n) (\<lambda>p1.
         bnd (at (pred G2) m) (\<lambda>p2.
           let card_pred_1 = set_intersection_size (out_1 s) p1;
               card_pred_2 = set_intersection_size (out_2 s) p2 in
           if \<not> s_subisomorphism s \<and> card_pred_1 \<noteq> card_pred_2 then Inr False
           else if s_subisomorphism s \<and> card_pred_1 > card_pred_2 then Inr False
           else Inr True))))"

fun genComplementary :: "int list \<Rightarrow> int list \<Rightarrow> int set \<Rightarrow> int set \<Rightarrow> error + int set" where
  "genComplementary [] core ins outs = Inr {}"
| "genComplementary (vid # vids) core ins outs =
     bnd (at core vid) (\<lambda>x.
     bnd (genComplementary vids core ins outs) (\<lambda>res.
       Inr (if x = NULL_VIndex \<and> vid \<notin> ins \<and> vid \<notin> outs then insert vid res else res)))"

definition checkNewRule :: "State \<Rightarrow> Graph \<Rightarrow> Graph \<Rightarrow> int \<Rightarrow> int \<Rightarrow> error + bool" where
  "checkNewRule s G1 G2 n m =
     bnd (genComplementary [0..vertex_count G1 - 1] (core_1 s) (in_1 s) (out_1 s)) (\<lambda>N1.
     bnd (genComplementary [0..vertex_count G2 - 1] (core_2 s) (in_2 s) (out_2 s)) (\<lambda>N2.
     bnd (at (pred G1) n) (\<lambda>p1.
     bnd (at (pred G2) m) (\<lambda>p2.
       let card_pred_1 = set_intersection_size p1 N1;
           card_pred_2 = set_intersection_size p2 N2 in
       if \<not> s_subisomorphism s \<and> card_pred_1 \<noteq> card_pred_2 then Inr False
       else if s_subisomorphism s \<and> card_pred_1 > card_pred_2 then Inr False
       else
         bnd (at (succ G1) n) (\<lambda>s1.
         bnd (at (succ G2) m) (\<lambda>s2.
           let card_succ_1 = set_intersection_size s1 N1;
               card_succ_2 = set_intersection_size s2 N2 in
           if \<not> s_subisomorphism s \<and> card_succ_1 \<noteq> card_succ_2 then Inr False
           else if s_subisomorphism s \<and> card_succ_1 > card_succ_2 then Inr False
           else Inr True))))))"

definition checkSynRules :: "State \<Rightarrow> Graph \<Rightarrow> Graph \<Rightarrow> int \<Rightarrow> int \<Rightarrow> error + bool" where
  "checkSynRules s G1 G2 n m =
     andalso (checkPredRule s G1 G2 n m)
    (andalso (checkSuccRule s G1 G2 n m)
    (andalso (checkInRule s G1 G2 n m)
    (andalso (checkOutRule s G1 G2 n m)
             (checkNewRule s G1 G2 n m))))"

definition checkSemRules :: "State \<Rightarrow> Graph \<Rightarrow> Graph \<Rightarrow> int \<Rightarrow> int \<Rightarrow> error + bool" where
  "checkSemRules s G1 G2 n m =
     bnd (at (vertex G1) n) (\<lambda>l1.
     bnd (at (vertex G2) m) (\<lambda>l2.
       if l1 \<noteq> l2 then Inr False else Inr True))"

section \<open>The search driver\<close>

text \<open>
  \<open>first_success f P\<close> is the loop \<open>for (auto p: P) \<dots> if (\<dots>) return true;\<close> followed
  by \<open>return false\<close>: the body \<open>f\<close> answers whether the candidate led to a full
  mapping.
\<close>


fun first_success :: "('a \<Rightarrow> error + bool) \<Rightarrow> 'a list \<Rightarrow> error + bool" where
  "first_success f [] = Inr False"
| "first_success f (p # ps) = bnd (f p) (\<lambda>r. if r then Inr True else first_success f ps)"

definition mu :: "State \<Rightarrow> nat" where
  "mu s = card {i. in_range (core_1 s) i \<and> core_1 s ! nat i = NULL_VIndex}
        + card {x \<in> in_1 s \<union> out_1 s. in_range (core_1 s) x \<and> core_1 s ! nat x \<noteq> NULL_VIndex}"

lemma bnd_cong [fundef_cong]:
  "m = m' \<Longrightarrow> (\<And>x. m' = Inr x \<Longrightarrow> f x = g x) \<Longrightarrow> bnd m f = bnd m' g"
  by (cases m') auto

lemma first_success_cong [fundef_cong]:
  "xs = ys \<Longrightarrow> (\<And>x. x \<in> set ys \<Longrightarrow> f x = g x) \<Longrightarrow> first_success f xs = first_success g ys"
proof (induction ys arbitrary: xs)
  case Nil
  then show ?case by simp
next
  case (Cons a ys)
  then have "first_success f ys = first_success g ys" and "f a = g a" by auto
  with Cons.prems(1) show ?case by (cases "g a") simp_all
qed

lemma bnd_eq_Inr: "bnd m f = Inr y \<longleftrightarrow> (\<exists>x. m = Inr x \<and> f x = Inr y)"
  by (cases m) auto

lemma at_eq_Inr: "at xs i = Inr x \<longleftrightarrow> in_range xs i \<and> x = xs ! nat i"
  by (auto simp: at_def)

lemma upd_eq_Inr: "upd xs i x = Inr ys \<longleftrightarrow> in_range xs i \<and> ys = xs[nat i := x]"
  by (auto simp: upd_def)

lemma add_unmapped_Inr:
  "add_unmapped c acc us = Inr r \<longleftrightarrow>
     (\<forall>a\<in>set us. in_range c a) \<and> r = acc \<union> {a \<in> set us. c ! nat a = NULL_VIndex}"
  by (induction us arbitrary: acc) (auto simp: bnd_eq_Inr at_eq_Inr)

lemma unmapped_pairs_Inr:
  "unmapped_pairs c m vs = Inr P \<longleftrightarrow>
     (\<forall>a\<in>set vs. in_range c a) \<and> P = map (\<lambda>a. (a, m)) (filter (\<lambda>a. c ! nat a = NULL_VIndex) vs)"
  by (induction vs arbitrary: P) (auto simp: bnd_eq_Inr at_eq_Inr)

lemma genCandi_fst:
  assumes "genCandiPairSet s = Inr P" "(n, m) \<in> set P"
  shows "n \<in> in_1 s \<union> out_1 s \<or> (in_range (core_1 s) n \<and> core_1 s ! nat n = NULL_VIndex)"
proof -
  have fin: "\<And>A x. x \<in> set (sorted_list_of_set A) \<Longrightarrow> x \<in> (A :: int set)"
  proof -
    fix A :: "int set" and x assume "x \<in> set (sorted_list_of_set A)"
    then show "x \<in> A" by (cases "finite A") auto
  qed
  show ?thesis using assms
    by (auto simp: genCandiPairSet_def bnd_eq_Inr unmapped_pairs_Inr split: if_splits dest: fin)
qed

lemma mu_decreases:
  assumes gen: "genCandiPairSet s = Inr P" and mem: "(n, m) \<in> set P"
    and add: "addNewPair s n m p1 p2 s1 s2 = Inr s'"
  shows "mu s' < mu s"
proof -
  let ?c = "core_1 s"
  let ?c' = "?c[nat n := m]"
  let ?A = "{i. in_range ?c i \<and> ?c ! nat i = NULL_VIndex}"
  let ?B = "{x \<in> in_1 s \<union> out_1 s. in_range ?c x \<and> ?c ! nat x \<noteq> NULL_VIndex}"
  from add have rn: "in_range ?c n" and rm: "in_range (core_2 s) m"
    and c1: "core_1 s' = ?c'"
    and i1: "in_1 s' = (in_1 s \<union> {a \<in> set (sorted_list_of_set p1). ?c' ! nat a = NULL_VIndex}) - {n}"
    and o1: "out_1 s' = (out_1 s \<union> {a \<in> set (sorted_list_of_set s1). ?c' ! nat a = NULL_VIndex}) - {n}"
    by (auto simp: addNewPair_def bnd_eq_Inr upd_eq_Inr add_unmapped_Inr)
  from rm have m0: "m \<noteq> NULL_VIndex" by (simp add: in_range_def)
  have finA: "finite ?A" and finB: "finite ?B"
    by (rule finite_subset[of _ "{0..int (length ?c)}"]; auto simp: in_range_def)+
  have rng: "\<And>i. in_range ?c' i = in_range ?c i" by (simp add: in_range_def)
  have nth: "\<And>i. in_range ?c i \<Longrightarrow> ?c' ! nat i = (if i = n then m else ?c ! nat i)"
    using rn by (auto simp: in_range_def nth_list_update)
  have A': "{i. in_range (core_1 s') i \<and> core_1 s' ! nat i = NULL_VIndex} \<subseteq> ?A - {n}"
    using m0 by (auto simp: c1 rng nth split: if_splits)
  have B': "{x \<in> in_1 s' \<union> out_1 s'. in_range (core_1 s') x \<and> core_1 s' ! nat x \<noteq> NULL_VIndex} \<subseteq> ?B - {n}"
    by (auto simp: c1 i1 o1 rng nth split: if_splits)
  have "n \<in> ?A \<or> n \<in> ?B" using genCandi_fst[OF gen mem] rn by auto
  then have "card (?A - {n}) + card (?B - {n}) < card ?A + card ?B"
  proof
    assume "n \<in> ?A"
    then have "card (?A - {n}) < card ?A" using finA by (meson card_Diff1_less)
    moreover have "card (?B - {n}) \<le> card ?B" using finB by (simp add: card_Diff1_le)
    ultimately show ?thesis by linarith
  next
    assume "n \<in> ?B"
    then have "card (?B - {n}) < card ?B" using finB by (meson card_Diff1_less)
    moreover have "card (?A - {n}) \<le> card ?A" using finA by (simp add: card_Diff1_le)
    ultimately show ?thesis by linarith
  qed
  moreover have "mu s' \<le> card (?A - {n}) + card (?B - {n})"
    unfolding mu_def using card_mono[OF _ A'] card_mono[OF _ B'] finA finB
    by (meson add_mono finite_Diff)
  ultimately show ?thesis unfolding mu_def by linarith
qed

function solve :: "Graph \<Rightarrow> Graph \<Rightarrow> State \<Rightarrow> error + bool" where
  "solve G1 G2 s =
     (if int (card (M1 s)) = s_vertex_count s then Inr True
      else bnd (genCandiPairSet s) (\<lambda>P.
        first_success (\<lambda>(n, m).
          bnd (andalso (checkSemRules s G1 G2 n m) (checkSynRules s G1 G2 n m)) (\<lambda>ok.
            if ok then
              bnd (at (pred G1) n) (\<lambda>p1.
              bnd (at (pred G2) m) (\<lambda>p2.
              bnd (at (succ G1) n) (\<lambda>s1.
              bnd (at (succ G2) m) (\<lambda>s2.
              bnd (addNewPair s n m p1 p2 s1 s2) (\<lambda>new_state.
                solve G1 G2 new_state)))))
            else Inr False)) P))"
  by pat_completeness auto
termination
proof (relation "measure (\<lambda>(G1, G2, s). mu s)", goal_cases)
  case 1
  show ?case by simp
next
  case (2 G1 G2 s P p n m ok p1 p2 s1 s2 new_state)
  then show ?case using mu_decreases by auto
qed

declare solve.simps [simp del]

definition isomorphism :: "Graph \<Rightarrow> Graph \<Rightarrow> error + bool" where
  "isomorphism G1 G2 =
     (if vertex_count G1 \<noteq> vertex_count G2 then Inr False
      else if edge_count G1 \<noteq> edge_count G2 then Inr False
      else solve G1 G2 (newState (vertex_count G1) False))"

definition subisomorphism :: "Graph \<Rightarrow> Graph \<Rightarrow> error + bool" where
  "subisomorphism G1 G2 =
     (if vertex_count G1 > vertex_count G2 then Inr False
      else if edge_count G1 > edge_count G2 then Inr False
      else solve G1 G2 (newState (vertex_count G1) True))"

section \<open>What a match is\<close>

text \<open>
  The vertices and the labelled edges of a graph, and the two notions of a match of the
  specification: an exact isomorphism (a bijection of the vertices that keeps vertex labels
  and under which the labelled edges correspond in both directions) and an embedding (an
  injection that keeps vertex labels and carries every labelled edge of the query to an
  edge of the data graph with the same label).
\<close>

definition vertices_of :: "Graph \<Rightarrow> int set" where
  "vertices_of G = {0..<vertex_count G}"

definition edges_of :: "Graph \<Rightarrow> (int \<times> int \<times> int) set" where
  "edges_of G = (\<lambda>e. (edge_u e, edge_v e, edge_label e)) ` set (edge G)"

definition label_of :: "Graph \<Rightarrow> int \<Rightarrow> int" where
  "label_of G n = vertex G ! nat n"

definition is_embedding :: "Graph \<Rightarrow> Graph \<Rightarrow> (int \<Rightarrow> int) \<Rightarrow> bool" where
  "is_embedding G1 G2 \<phi> \<longleftrightarrow>
     inj_on \<phi> (vertices_of G1) \<and> \<phi> ` vertices_of G1 \<subseteq> vertices_of G2 \<and>
     (\<forall>n\<in>vertices_of G1. label_of G1 n = label_of G2 (\<phi> n)) \<and>
     (\<forall>(a, b, l)\<in>edges_of G1. (\<phi> a, \<phi> b, l) \<in> edges_of G2)"

definition is_isomorphism :: "Graph \<Rightarrow> Graph \<Rightarrow> (int \<Rightarrow> int) \<Rightarrow> bool" where
  "is_isomorphism G1 G2 \<phi> \<longleftrightarrow>
     bij_betw \<phi> (vertices_of G1) (vertices_of G2) \<and>
     (\<forall>n\<in>vertices_of G1. label_of G1 n = label_of G2 (\<phi> n)) \<and>
     (\<forall>a\<in>vertices_of G1. \<forall>b\<in>vertices_of G1. \<forall>l.
        (a, b, l) \<in> edges_of G1 \<longleftrightarrow> (\<phi> a, \<phi> b, l) \<in> edges_of G2)"

text \<open>
  An embedding is induced when the data graph has no edge between the images of two query
  vertices that the query does not join in the same direction.
\<close>

definition induced :: "Graph \<Rightarrow> Graph \<Rightarrow> (int \<Rightarrow> int) \<Rightarrow> bool" where
  "induced G1 G2 \<phi> \<longleftrightarrow>
     (\<forall>a\<in>vertices_of G1. \<forall>b\<in>vertices_of G1. \<forall>l.
        (\<phi> a, \<phi> b, l) \<in> edges_of G2 \<longrightarrow> (\<exists>l'. (a, b, l') \<in> edges_of G1))"

section \<open>Well-formed graphs and states\<close>

text \<open>
  What \<open>addVertex\<close> and \<open>addEdge\<close> establish (lemma \<open>wf_build\<close>): the vectors of a
  graph have one entry per vertex, every head and every \<open>next\<close>/\<open>prev\<close> link is
  \<open>NULL_EIndex\<close> or the index of an edge, a link points to an edge added earlier, and
  the endpoints of the edges and the members of the \<open>pred\<close>/\<open>succ\<close> sets are vertices.
\<close>

definition wf_links :: "Edge list \<Rightarrow> int list \<Rightarrow> (Edge \<Rightarrow> int) \<Rightarrow> bool" where
  "wf_links es heads link \<longleftrightarrow>
     (\<forall>h\<in>set heads. - 1 \<le> h \<and> h < int (length es)) \<and>
     (\<forall>i<length es. - 1 \<le> link (es ! i) \<and> link (es ! i) < int i)"

definition wf_ends :: "Edge list \<Rightarrow> nat \<Rightarrow> bool" where
  "wf_ends es k \<longleftrightarrow>
     (\<forall>e\<in>set es. 0 \<le> edge_u e \<and> edge_u e < int k \<and> 0 \<le> edge_v e \<and> edge_v e < int k)"

definition wf_adj :: "int set list \<Rightarrow> nat \<Rightarrow> bool" where
  "wf_adj adj k \<longleftrightarrow> length adj = k \<and> (\<forall>A\<in>set adj. \<forall>a\<in>A. 0 \<le> a \<and> a < int k)"

definition wf_graph :: "Graph \<Rightarrow> bool" where
  "wf_graph G \<longleftrightarrow>
     vertex_count G = int (length (vertex G)) \<and>
     edge_count G = int (length (edge G)) \<and>
     length (head_edge G) = length (vertex G) \<and>
     length (rev_head_edge G) = length (vertex G) \<and>
     wf_links (edge G) (head_edge G) edge_next \<and>
     wf_links (edge G) (rev_head_edge G) edge_prev \<and>
     wf_ends (edge G) (length (vertex G)) \<and>
     wf_adj (pred G) (length (vertex G)) \<and>
     wf_adj (succ G) (length (vertex G))"

definition dec_links :: "Edge list \<Rightarrow> (Edge \<Rightarrow> int) \<Rightarrow> bool" where
  "dec_links es link \<longleftrightarrow> (\<forall>i<length es. - 1 \<le> link (es ! i) \<and> link (es ! i) < int i)"

text \<open>\<open>on_chain link es h eid\<close>: the walk from \<open>h\<close> along \<open>link\<close> visits the edge \<open>eid\<close>.\<close>

inductive on_chain :: "(Edge \<Rightarrow> int) \<Rightarrow> Edge list \<Rightarrow> int \<Rightarrow> int \<Rightarrow> bool"
  for link :: "Edge \<Rightarrow> int" and es :: "Edge list" where
  here: "in_range es h \<Longrightarrow> on_chain link es h h"
| step: "in_range es h \<Longrightarrow> on_chain link es (link (es ! nat h)) eid \<Longrightarrow> on_chain link es h eid"

text \<open>
  The vertices a core vector maps and leaves unmapped, and the invariant of the two core
  vectors that every state of a search satisfies: \<open>M1\<close>, \<open>M2\<close> are the mapped vertices,
  the frontier sets hold unmapped vertices only, and \<open>core_1\<close>, \<open>core_2\<close> are inverse to
  each other on the mapped vertices.
\<close>

definition unmapped :: "int list \<Rightarrow> int set" where
  "unmapped c = {i. in_range c i \<and> c ! nat i = NULL_VIndex}"

definition mapped :: "int list \<Rightarrow> int set" where
  "mapped c = {i. in_range c i \<and> c ! nat i \<noteq> NULL_VIndex}"

definition core_inv :: "State \<Rightarrow> bool" where
  "core_inv s \<longleftrightarrow>
     M1 s = mapped (core_1 s) \<and> M2 s = mapped (core_2 s) \<and>
     in_1 s \<subseteq> unmapped (core_1 s) \<and> out_1 s \<subseteq> unmapped (core_1 s) \<and>
     in_2 s \<subseteq> unmapped (core_2 s) \<and> out_2 s \<subseteq> unmapped (core_2 s) \<and>
     (\<forall>n\<in>mapped (core_1 s).
        core_1 s ! nat n \<in> mapped (core_2 s) \<and> core_2 s ! nat (core_1 s ! nat n) = n) \<and>
     (\<forall>m\<in>mapped (core_2 s).
        core_2 s ! nat m \<in> mapped (core_1 s) \<and> core_1 s ! nat (core_2 s ! nat m) = m)"

text \<open>\<open>fits\<close>: the core vectors have one entry per vertex of their graph.\<close>

definition fits :: "Graph \<Rightarrow> Graph \<Rightarrow> State \<Rightarrow> bool" where
  "fits G1 G2 s \<longleftrightarrow>
     length (core_1 s) = length (vertex G1) \<and> length (core_2 s) = length (vertex G2)"

text \<open>
  The states of the search tree of \<open>solve\<close>: the state the entry points build, and every
  state \<open>solve\<close> recurses on, namely \<open>addNewPair\<close> applied to a clone of an incomplete
  state for a candidate pair that passed \<open>checkSemRules\<close> and \<open>checkSynRules\<close>.
\<close>

inductive reachable :: "Graph \<Rightarrow> Graph \<Rightarrow> bool \<Rightarrow> State \<Rightarrow> bool"
  for G1 :: Graph and G2 :: Graph and sub :: bool where
  start: "reachable G1 G2 sub (newState (vertex_count G1) sub)"
| extend: "reachable G1 G2 sub s \<Longrightarrow> int (card (M1 s)) \<noteq> s_vertex_count s \<Longrightarrow>
     genCandiPairSet s = Inr P \<Longrightarrow> (n, m) \<in> set P \<Longrightarrow>
     andalso (checkSemRules s G1 G2 n m) (checkSynRules s G1 G2 n m) = Inr True \<Longrightarrow>
     at (pred G1) n = Inr p1 \<Longrightarrow> at (pred G2) m = Inr p2 \<Longrightarrow>
     at (succ G1) n = Inr s1 \<Longrightarrow> at (succ G2) m = Inr s2 \<Longrightarrow>
     addNewPair s n m p1 p2 s1 s2 = Inr s' \<Longrightarrow> reachable G1 G2 sub s'"

text \<open>
  The invariants of a state that section 3 of the specification lists, in its words: the
  core vectors have an entry per vertex of their graph, holding a vertex of the other
  graph or \<open>NULL_VIndex\<close>; \<open>core_1[n] = m\<close> iff \<open>core_2[m] = n\<close>; \<open>M1\<close> and \<open>M2\<close> are
  the vertices with a mapped core entry; the frontier sets are disjoint from them; and each
  frontier set is the set of unmapped predecessors, resp. successors, of the mapped set.
\<close>

definition state_inv :: "Graph \<Rightarrow> Graph \<Rightarrow> State \<Rightarrow> bool" where
  "state_inv G1 G2 s \<longleftrightarrow>
     length (core_1 s) = length (vertex G1) \<and> length (core_2 s) = length (vertex G2) \<and>
     (\<forall>i\<in>vertices_of G1. core_1 s ! nat i = NULL_VIndex \<or> core_1 s ! nat i \<in> vertices_of G2) \<and>
     (\<forall>j\<in>vertices_of G2. core_2 s ! nat j = NULL_VIndex \<or> core_2 s ! nat j \<in> vertices_of G1) \<and>
     (\<forall>n\<in>vertices_of G1. \<forall>m\<in>vertices_of G2.
        core_1 s ! nat n = m \<longleftrightarrow> core_2 s ! nat m = n) \<and>
     M1 s = {i \<in> vertices_of G1. core_1 s ! nat i \<noteq> NULL_VIndex} \<and>
     M2 s = {j \<in> vertices_of G2. core_2 s ! nat j \<noteq> NULL_VIndex} \<and>
     in_1 s \<inter> M1 s = {} \<and> out_1 s \<inter> M1 s = {} \<and>
     in_2 s \<inter> M2 s = {} \<and> out_2 s \<inter> M2 s = {} \<and>
     in_1 s = {a. a \<notin> M1 s \<and> (\<exists>b\<in>M1 s. a \<in> pred G1 ! nat b)} \<and>
     out_1 s = {a. a \<notin> M1 s \<and> (\<exists>b\<in>M1 s. a \<in> succ G1 ! nat b)} \<and>
     in_2 s = {a. a \<notin> M2 s \<and> (\<exists>b\<in>M2 s. a \<in> pred G2 ! nat b)} \<and>
     out_2 s = {a. a \<notin> M2 s \<and> (\<exists>b\<in>M2 s. a \<in> succ G2 ! nat b)}"

section \<open>Auxiliary notions for the search\<close>

text \<open>
  \<open>no_div r\<close>: the result \<open>r\<close> is a value or a fault of the program, not a walk that
  runs forever. \<open>attempt G1 G2 s p\<close> is the body of the loop of \<open>solve\<close> for the
  candidate \<open>p\<close> (lemma \<open>solve_unfold\<close>).
\<close>

definition no_div :: "error + 'a \<Rightarrow> bool" where
  "no_div r \<longleftrightarrow> r \<noteq> Inl Diverges"

definition attempt :: "Graph \<Rightarrow> Graph \<Rightarrow> State \<Rightarrow> int \<times> int \<Rightarrow> error + bool" where
  "attempt G1 G2 s p =
     (case p of (n, m) \<Rightarrow>
        bnd (andalso (checkSemRules s G1 G2 n m) (checkSynRules s G1 G2 n m)) (\<lambda>ok.
          if ok then
            bnd (at (pred G1) n) (\<lambda>p1.
            bnd (at (pred G2) m) (\<lambda>p2.
            bnd (at (succ G1) n) (\<lambda>s1.
            bnd (at (succ G2) m) (\<lambda>s2.
            bnd (addNewPair s n m p1 p2 s1 s2) (\<lambda>new_state.
              solve G1 G2 new_state)))))
          else Inr False))"

text \<open>
  \<open>search_inv\<close>: the invariant of the states of a search on two graphs with the same
  number of vertices, where the core vectors have an entry per vertex of either graph.
  \<open>same_state G s\<close>: a state of a search of \<open>G\<close> in itself that maps every mapped vertex
  to itself.
\<close>

definition search_inv :: "Graph \<Rightarrow> Graph \<Rightarrow> State \<Rightarrow> bool" where
  "search_inv G1 G2 s \<longleftrightarrow>
     core_inv s \<and> fits G1 G2 s \<and> length (vertex G2) = length (vertex G1) \<and>
     s_vertex_count s = vertex_count G1"

definition same_state :: "Graph \<Rightarrow> State \<Rightarrow> bool" where
  "same_state G s \<longleftrightarrow>
     search_inv G G s \<and> core_2 s = core_1 s \<and> M2 s = M1 s \<and>
     in_2 s = in_1 s \<and> out_2 s = out_1 s \<and>
     (\<forall>i\<in>mapped (core_1 s). core_1 s ! nat i = i)"

text \<open>
  \<open>exact_graph\<close>: the linked lists and the adjacency sets of a graph hold its edges and
  nothing else. The list of \<open>head_edge[a]\<close> runs through the edges leaving \<open>a\<close>, the
  list of \<open>rev_head_edge[b]\<close> through the edges entering \<open>b\<close>; \<open>pred[b]\<close> is the set
  of sources of the edges entering \<open>b\<close>, \<open>succ[a]\<close> the set of targets of the edges
  leaving \<open>a\<close>. Every graph made by \<open>build\<close> is exact (lemma \<open>exact_build\<close>).
\<close>

definition exact_links ::
  "Edge list \<Rightarrow> int list \<Rightarrow> (Edge \<Rightarrow> int) \<Rightarrow> (Edge \<Rightarrow> int) \<Rightarrow> bool" where
  "exact_links es heads link src \<longleftrightarrow>
     (\<forall>a i. in_range heads a \<longrightarrow>
        (on_chain link es (heads ! nat a) i \<longleftrightarrow> in_range es i \<and> src (es ! nat i) = a))"

definition exact_adj ::
  "int set list \<Rightarrow> (int \<times> int) set \<Rightarrow> bool" where
  "exact_adj adj R \<longleftrightarrow> (\<forall>b. in_range adj b \<longrightarrow> adj ! nat b = {a. (a, b) \<in> R})"

definition exact_graph :: "Graph \<Rightarrow> bool" where
  "exact_graph G \<longleftrightarrow>
     exact_links (edge G) (head_edge G) edge_next edge_u \<and>
     exact_links (edge G) (rev_head_edge G) edge_prev edge_v \<and>
     exact_adj (pred G) {(a, b). \<exists>l. (a, b, l) \<in> edges_of G} \<and>
     exact_adj (succ G) {(b, a). \<exists>l. (a, b, l) \<in> edges_of G}"

text \<open>
  \<open>matched G1 G2 \<phi>\<close>: two graphs with the same number of vertices and an induced
  embedding \<open>\<phi>\<close> of the first in the second. \<open>follows G1 G2 \<phi> s\<close>: a state of the
  search whose mapping is a part of \<open>\<phi>\<close>, and whose frontier sets of \<open>G2\<close> are the
  images of those of \<open>G1\<close>.
\<close>

definition follows :: "Graph \<Rightarrow> Graph \<Rightarrow> (int \<Rightarrow> int) \<Rightarrow> State \<Rightarrow> bool" where
  "follows G1 G2 \<phi> s \<longleftrightarrow>
     search_inv G1 G2 s \<and> (\<forall>n\<in>mapped (core_1 s). core_1 s ! nat n = \<phi> n) \<and>
     in_2 s = \<phi> ` in_1 s \<and> out_2 s = \<phi> ` out_1 s"

definition matched :: "Graph \<Rightarrow> Graph \<Rightarrow> (int \<Rightarrow> int) \<Rightarrow> bool" where
  "matched G1 G2 \<phi> \<longleftrightarrow>
     wf_graph G1 \<and> exact_graph G1 \<and> wf_graph G2 \<and> exact_graph G2 \<and>
     vertex_count G2 = vertex_count G1 \<and> is_embedding G1 G2 \<phi> \<and> induced G1 G2 \<phi>"

section \<open>The search driver on a stack of states\<close>

text \<open>
  \<open>solve\<close> takes its state by reference, clones it into the local \<open>new_state\<close> for every
  accepted candidate, lets \<open>addNewPair\<close> write into the clone and passes the clone, again
  by reference, to the recursive call. To say which state a write reaches, this second
  model of \<open>solve\<close> keeps the states of all frames in a list: \<open>a\<close> is the position of the
  state the call was given, the clone is pushed at the end, \<open>addNewPair\<close> is stored at
  the clone's position, the recursive call gets that position and the whole list, and the
  clone is popped when its block is left. The model returns the list with the answer.
  The graphs are \<open>const\<close> references in the source and values here. The first
  argument bounds the depth of the recursion; \<open>None\<close> is the answer beyond it.
\<close>

type_synonym frames = "State list"

fun try_frames ::
  "(frames \<Rightarrow> nat \<Rightarrow> ((error + bool) \<times> frames) option) \<Rightarrow> Graph \<Rightarrow> Graph \<Rightarrow> nat \<Rightarrow>
     (int \<times> int) list \<Rightarrow> frames \<Rightarrow> ((error + bool) \<times> frames) option" where
  "try_frames call G1 G2 a [] fs = Some (Inr False, fs)"
| "try_frames call G1 G2 a ((n, m) # ps) fs =
     (case andalso (checkSemRules (fs ! a) G1 G2 n m) (checkSynRules (fs ! a) G1 G2 n m) of
        Inl e \<Rightarrow> Some (Inl e, fs)
      | Inr ok \<Rightarrow>
          if ok then
            (let fs1 = fs @ [fs ! a]; b = length fs in
             case bnd (at (pred G1) n) (\<lambda>p1.
                  bnd (at (pred G2) m) (\<lambda>p2.
                  bnd (at (succ G1) n) (\<lambda>s1.
                  bnd (at (succ G2) m) (\<lambda>s2.
                    addNewPair (fs1 ! b) n m p1 p2 s1 s2)))) of
               Inl e \<Rightarrow> Some (Inl e, fs)
             | Inr new_state \<Rightarrow>
                 (case call (fs1[b := new_state]) b of
                    None \<Rightarrow> None
                  | Some (Inl e, fs2) \<Rightarrow> Some (Inl e, butlast fs2)
                  | Some (Inr True, fs2) \<Rightarrow> Some (Inr True, butlast fs2)
                  | Some (Inr False, fs2) \<Rightarrow> try_frames call G1 G2 a ps (butlast fs2)))
          else try_frames call G1 G2 a ps fs)"

primrec solve_frames ::
  "nat \<Rightarrow> Graph \<Rightarrow> Graph \<Rightarrow> frames \<Rightarrow> nat \<Rightarrow> ((error + bool) \<times> frames) option" where
  "solve_frames 0 G1 G2 fs a = None"
| "solve_frames (Suc d) G1 G2 fs a =
     (if length fs \<le> a then None
      else if int (card (M1 (fs ! a))) = s_vertex_count (fs ! a) then Some (Inr True, fs)
      else case genCandiPairSet (fs ! a) of
             Inl e \<Rightarrow> Some (Inl e, fs)
           | Inr P \<Rightarrow> try_frames (solve_frames d G1 G2) G1 G2 a P fs)"

section \<open>Example graphs\<close>

text \<open>
  Each graph is written out as the record that \<open>build\<close> produces from the given
  sequence of \<open>v\<close> and \<open>e\<close> lines (lemmas \<open>*_built\<close> below).
  \<^item> \<open>loop1\<close>, \<open>loop2\<close>: one vertex with a self-loop, labelled 1 resp. 2;
  \<^item> \<open>par1\<close>, \<open>par2\<close>: two parallel edges \<open>0 \<rightarrow> 1\<close>, labelled 1, 1 resp. 1, 2;
  \<^item> \<open>point1\<close>, \<open>point2\<close>: one resp. two isolated vertices;
  \<^item> \<open>pointB\<close>: two isolated vertices labelled 1 and 0 (those of \<open>point1\<close> and
    \<open>point2\<close> are labelled 0);
  \<^item> \<open>fan1\<close>, \<open>fan2\<close>: edges \<open>0 \<rightarrow> 2\<close>, \<open>1 \<rightarrow> 2\<close> and a third edge, \<open>1 \<rightarrow> 0\<close> resp.
    \<open>0 \<rightarrow> 0\<close>;
  \<^item> \<open>path3\<close>, \<open>chord3\<close>: the path \<open>0 \<rightarrow> 1 \<rightarrow> 2\<close>, and the same with the edge
    \<open>0 \<rightarrow> 2\<close> added (scenarios 3 and 4 of the specification);
  \<^item> \<open>chain1\<close>, \<open>chain2\<close>: the path \<open>0 \<rightarrow> 1 \<rightarrow> 2\<close> with vertex labels 1, 2, 3 and
    edge labels 5, 6, and the same path with its vertices numbered backwards and a second
    edge, labelled 7, beside the one labelled 6.
  \<open>fan_state\<close> and \<open>chord_state\<close> are the states the search reaches on these graphs
  after the pair \<open>(2, 2)\<close>.
\<close>

definition loop1 :: Graph where
  "loop1 = \<lparr>edge_count = 1, vertex_count = 1, vertex = [0], head_edge = [0], rev_head_edge = [0],
     edge = [\<lparr>edge_u = 0, edge_v = 0, edge_label = 1, edge_next = - 1, edge_prev = - 1\<rparr>],
     pred = [{0}], succ = [{0}]\<rparr>"

definition loop2 :: Graph where
  "loop2 = \<lparr>edge_count = 1, vertex_count = 1, vertex = [0], head_edge = [0], rev_head_edge = [0],
     edge = [\<lparr>edge_u = 0, edge_v = 0, edge_label = 2, edge_next = - 1, edge_prev = - 1\<rparr>],
     pred = [{0}], succ = [{0}]\<rparr>"

definition par1 :: Graph where
  "par1 = \<lparr>edge_count = 2, vertex_count = 2, vertex = [0, 0],
     head_edge = [1, - 1], rev_head_edge = [- 1, 1],
     edge = [\<lparr>edge_u = 0, edge_v = 1, edge_label = 1, edge_next = - 1, edge_prev = - 1\<rparr>,
             \<lparr>edge_u = 0, edge_v = 1, edge_label = 1, edge_next = 0, edge_prev = 0\<rparr>],
     pred = [{}, {0}], succ = [{1}, {}]\<rparr>"

definition par2 :: Graph where
  "par2 = \<lparr>edge_count = 2, vertex_count = 2, vertex = [0, 0],
     head_edge = [1, - 1], rev_head_edge = [- 1, 1],
     edge = [\<lparr>edge_u = 0, edge_v = 1, edge_label = 1, edge_next = - 1, edge_prev = - 1\<rparr>,
             \<lparr>edge_u = 0, edge_v = 1, edge_label = 2, edge_next = 0, edge_prev = 0\<rparr>],
     pred = [{}, {0}], succ = [{1}, {}]\<rparr>"

definition point1 :: Graph where
  "point1 = \<lparr>edge_count = 0, vertex_count = 1, vertex = [0], head_edge = [- 1],
     rev_head_edge = [- 1], edge = [], pred = [{}], succ = [{}]\<rparr>"

definition point2 :: Graph where
  "point2 = \<lparr>edge_count = 0, vertex_count = 2, vertex = [0, 0], head_edge = [- 1, - 1],
     rev_head_edge = [- 1, - 1], edge = [], pred = [{}, {}], succ = [{}, {}]\<rparr>"

definition fan1 :: Graph where
  "fan1 = \<lparr>edge_count = 3, vertex_count = 3, vertex = [0, 0, 0],
     head_edge = [0, 2, - 1], rev_head_edge = [2, - 1, 1],
     edge = [\<lparr>edge_u = 0, edge_v = 2, edge_label = 0, edge_next = - 1, edge_prev = - 1\<rparr>,
             \<lparr>edge_u = 1, edge_v = 2, edge_label = 0, edge_next = - 1, edge_prev = 0\<rparr>,
             \<lparr>edge_u = 1, edge_v = 0, edge_label = 0, edge_next = 1, edge_prev = - 1\<rparr>],
     pred = [{1}, {}, {0, 1}], succ = [{2}, {0, 2}, {}]\<rparr>"

definition fan2 :: Graph where
  "fan2 = \<lparr>edge_count = 3, vertex_count = 3, vertex = [0, 0, 0],
     head_edge = [2, 1, - 1], rev_head_edge = [2, - 1, 1],
     edge = [\<lparr>edge_u = 0, edge_v = 2, edge_label = 0, edge_next = - 1, edge_prev = - 1\<rparr>,
             \<lparr>edge_u = 1, edge_v = 2, edge_label = 0, edge_next = - 1, edge_prev = 0\<rparr>,
             \<lparr>edge_u = 0, edge_v = 0, edge_label = 0, edge_next = 0, edge_prev = - 1\<rparr>],
     pred = [{0}, {}, {0, 1}], succ = [{0, 2}, {2}, {}]\<rparr>"

definition fan_state :: State where
  "fan_state = \<lparr>s_vertex_count = 3, s_subisomorphism = False,
     in_1 = {0, 1}, in_2 = {0, 1}, out_1 = {}, out_2 = {}, M1 = {2}, M2 = {2},
     core_1 = [- 1, - 1, 2], core_2 = [- 1, - 1, 2]\<rparr>"

definition path3 :: Graph where
  "path3 = \<lparr>edge_count = 2, vertex_count = 3, vertex = [0, 0, 0],
     head_edge = [0, 1, - 1], rev_head_edge = [- 1, 0, 1],
     edge = [\<lparr>edge_u = 0, edge_v = 1, edge_label = 0, edge_next = - 1, edge_prev = - 1\<rparr>,
             \<lparr>edge_u = 1, edge_v = 2, edge_label = 0, edge_next = - 1, edge_prev = - 1\<rparr>],
     pred = [{}, {0}, {1}], succ = [{1}, {2}, {}]\<rparr>"

definition chord3 :: Graph where
  "chord3 = \<lparr>edge_count = 3, vertex_count = 3, vertex = [0, 0, 0],
     head_edge = [2, 1, - 1], rev_head_edge = [- 1, 0, 2],
     edge = [\<lparr>edge_u = 0, edge_v = 1, edge_label = 0, edge_next = - 1, edge_prev = - 1\<rparr>,
             \<lparr>edge_u = 1, edge_v = 2, edge_label = 0, edge_next = - 1, edge_prev = - 1\<rparr>,
             \<lparr>edge_u = 0, edge_v = 2, edge_label = 0, edge_next = 0, edge_prev = 1\<rparr>],
     pred = [{}, {0}, {0, 1}], succ = [{1, 2}, {2}, {}]\<rparr>"

definition chord_state :: State where
  "chord_state = \<lparr>s_vertex_count = 3, s_subisomorphism = True,
     in_1 = {1}, in_2 = {0, 1}, out_1 = {}, out_2 = {}, M1 = {2}, M2 = {2},
     core_1 = [- 1, - 1, 2], core_2 = [- 1, - 1, 2]\<rparr>"

definition chain1 :: Graph where
  "chain1 = \<lparr>edge_count = 2, vertex_count = 3, vertex = [1, 2, 3],
     head_edge = [0, 1, - 1], rev_head_edge = [- 1, 0, 1],
     edge = [\<lparr>edge_u = 0, edge_v = 1, edge_label = 5, edge_next = - 1, edge_prev = - 1\<rparr>,
             \<lparr>edge_u = 1, edge_v = 2, edge_label = 6, edge_next = - 1, edge_prev = - 1\<rparr>],
     pred = [{}, {0}, {1}], succ = [{1}, {2}, {}]\<rparr>"

definition chain2 :: Graph where
  "chain2 = \<lparr>edge_count = 3, vertex_count = 3, vertex = [3, 2, 1],
     head_edge = [- 1, 2, 0], rev_head_edge = [2, 0, - 1],
     edge = [\<lparr>edge_u = 2, edge_v = 1, edge_label = 5, edge_next = - 1, edge_prev = - 1\<rparr>,
             \<lparr>edge_u = 1, edge_v = 0, edge_label = 6, edge_next = - 1, edge_prev = - 1\<rparr>,
             \<lparr>edge_u = 1, edge_v = 0, edge_label = 7, edge_next = 1, edge_prev = 1\<rparr>],
     pred = [{1}, {2}, {}], succ = [{}, {0}, {1}]\<rparr>"

definition pointB :: Graph where
  "pointB = \<lparr>edge_count = 0, vertex_count = 2, vertex = [1, 0], head_edge = [- 1, - 1],
     rev_head_edge = [- 1, - 1], edge = [], pred = [{}, {}], succ = [{}, {}]\<rparr>"

section \<open>The example graphs are built by the reader's calls\<close>

lemmas graph_ops = initial_def addVertex_def addEdge_def at_def upd_def in_range_def

lemma loop1_built: "build initial [V 0, E 0 0 1] = Inr loop1"
  by (simp add: graph_ops loop1_def)
lemma loop2_built: "build initial [V 0, E 0 0 2] = Inr loop2"
  by (simp add: graph_ops loop2_def)
lemma par1_built: "build initial [V 0, V 0, E 0 1 1, E 0 1 1] = Inr par1"
  by (simp add: graph_ops par1_def)
lemma par2_built: "build initial [V 0, V 0, E 0 1 1, E 0 1 2] = Inr par2"
  by (simp add: graph_ops par2_def)
lemma point1_built: "build initial [V 0] = Inr point1"
  by (simp add: graph_ops point1_def)
lemma point2_built: "build initial [V 0, V 0] = Inr point2"
  by (simp add: graph_ops point2_def)
lemma fan1_built: "build initial [V 0, V 0, V 0, E 0 2 0, E 1 2 0, E 1 0 0] = Inr fan1"
  by (simp add: graph_ops fan1_def insert_commute)
lemma fan2_built: "build initial [V 0, V 0, V 0, E 0 2 0, E 1 2 0, E 0 0 0] = Inr fan2"
  by (simp add: graph_ops fan2_def insert_commute)
lemma path3_built: "build initial [V 0, V 0, V 0, E 0 1 0, E 1 2 0] = Inr path3"
  by (simp add: graph_ops path3_def insert_commute)
lemma chord3_built: "build initial [V 0, V 0, V 0, E 0 1 0, E 1 2 0, E 0 2 0] = Inr chord3"
  by (simp add: graph_ops chord3_def insert_commute)

lemma fan_state_reached:
  "checkSemRules (newState 3 False) fan1 fan2 2 2 = Inr True \<and>
   checkSynRules (newState 3 False) fan1 fan2 2 2 = Inr True \<and>
   addNewPair (newState 3 False) 2 2 (pred fan1 ! 2) (pred fan2 ! 2) (succ fan1 ! 2) (succ fan2 ! 2)
     = Inr fan_state \<and>
   genCandiPairSet fan_state = Inr [(0, 1), (1, 1)]"
  by code_simp

lemma chord_state_reached:
  "checkSemRules (newState 3 True) path3 chord3 2 2 = Inr True \<and>
   checkSynRules (newState 3 True) path3 chord3 2 2 = Inr True \<and>
   addNewPair (newState 3 True) 2 2 (pred path3 ! 2) (pred chord3 ! 2) (succ path3 ! 2) (succ chord3 ! 2)
     = Inr chord_state \<and>
   genCandiPairSet chord_state = Inr [(1, 1)]"
  by code_simp


section \<open>Matches of the example graphs\<close>

lemma par_not_isomorphic: "\<not> is_isomorphism par1 par2 \<phi>"
proof
  assume a: "is_isomorphism par1 par2 \<phi>"
  have V: "vertices_of par1 = {0, 1}" "vertices_of par2 = {0, 1}"
    by (auto simp: vertices_of_def par1_def par2_def)
  from a have "\<phi> ` {0, 1} = {0, 1}"
    by (simp add: is_isomorphism_def V bij_betw_def)
  then have "0 \<in> \<phi> ` {0, 1}" "1 \<in> \<phi> ` {0, 1}" by simp_all
  then obtain a b where ab: "a \<in> {0, 1}" "b \<in> {0, 1}" "\<phi> a = 0" "\<phi> b = 1"
    by (metis imageE)
  from a have "\<forall>a\<in>{0, 1}. \<forall>b\<in>{0, 1}. \<forall>l.
        (a, b, l) \<in> edges_of par1 \<longleftrightarrow> (\<phi> a, \<phi> b, l) \<in> edges_of par2"
    by (simp add: is_isomorphism_def V)
  with ab have "(a, b, 2) \<in> edges_of par1 \<longleftrightarrow> (0, 1, 2) \<in> edges_of par2" by metis
  then show False by (auto simp: edges_of_def par1_def par2_def)
qed

lemma loops_not_isomorphic: "\<not> is_isomorphism loop1 loop2 \<phi>"
proof
  assume a: "is_isomorphism loop1 loop2 \<phi>"
  have V: "vertices_of loop1 = {0}" "vertices_of loop2 = {0}"
    by (auto simp: vertices_of_def loop1_def loop2_def)
  from a have "\<phi> ` {0} = {0}"
    by (simp add: is_isomorphism_def V bij_betw_def)
  then have p: "\<phi> 0 = 0" by simp
  from a have "(0, 0, 1) \<in> edges_of loop1 \<longleftrightarrow> (\<phi> 0, \<phi> 0, 1) \<in> edges_of loop2"
    by (simp add: is_isomorphism_def V)
  then show False by (simp add: edges_of_def loop1_def loop2_def)
qed

lemma loops_not_embeddable: "\<not> is_embedding loop1 loop2 \<phi>"
  by (auto simp: is_embedding_def edges_of_def vertices_of_def loop1_def loop2_def)

lemma path3_in_chord3: "is_embedding path3 chord3 (\<lambda>n. n)"
  by (auto simp: is_embedding_def vertices_of_def edges_of_def label_of_def path3_def chord3_def)

lemma iso_accepts_par: "isomorphism par1 par2 = Inr True"
  by code_simp

lemma chain1_built: "build initial [V 1, V 2, V 3, E 0 1 5, E 1 2 6] = Inr chain1"
  by (simp add: graph_ops chain1_def insert_commute)

lemma chain2_built: "build initial [V 3, V 2, V 1, E 2 1 5, E 1 0 6, E 1 0 7] = Inr chain2"
  by (simp add: graph_ops chain2_def insert_commute)

lemma chain_vertices: "vertices_of chain1 = {0, 1, 2}" "vertices_of chain2 = {0, 1, 2}"
  by (auto simp: vertices_of_def chain1_def chain2_def)

lemma chain_edges:
  "edges_of chain1 = {(0, 1, 5), (1, 2, 6)}"
  "edges_of chain2 = {(2, 1, 5), (1, 0, 6), (1, 0, 7)}"
  by (auto simp: edges_of_def chain1_def chain2_def)

lemma chain1_in_chain2: "is_embedding chain1 chain2 (\<lambda>n. 2 - n)"
  unfolding is_embedding_def chain_vertices chain_edges
  by (simp add: label_of_def chain1_def chain2_def inj_on_def)

lemma chain1_induced: "induced chain1 chain2 (\<lambda>n. 2 - n)"
  unfolding induced_def chain_vertices chain_edges by simp

lemma pointB_built: "build initial [V 1, V 0] = Inr pointB"
  by (simp add: graph_ops pointB_def)

lemma point1_in_pointB: "is_embedding point1 pointB (\<lambda>n. n + 1)"
proof -
  have v: "vertices_of point1 = {0}" "vertices_of pointB = {0, 1}"
    by (auto simp: vertices_of_def point1_def pointB_def)
  show ?thesis
    unfolding is_embedding_def v
    by (simp add: edges_of_def label_of_def point1_def pointB_def)
qed

lemma point1_induced_in_pointB: "induced point1 pointB (\<lambda>n. n + 1)"
  by (simp add: induced_def edges_of_def pointB_def)

section \<open>Graph construction keeps graphs well-formed\<close>

lemma in_range_nat: "in_range xs i \<Longrightarrow> nat i < length xs"
  by (auto simp: in_range_def)

lemma in_range_nth_mem: "in_range xs i \<Longrightarrow> xs ! nat i \<in> set xs"
  by (simp add: in_range_nat)

lemma set_update_cases: "x \<in> set (xs[i := y]) \<Longrightarrow> x = y \<or> x \<in> set xs"
  using set_update_subset_insert[of xs i y] by auto

lemma wf_links_snoc:
  assumes "wf_links es heads link" "in_range heads a" "link e = heads ! nat a"
  shows "wf_links (es @ [e]) (heads[nat a := int (length es)]) link"
proof -
  have h: "- 1 \<le> heads ! nat a \<and> heads ! nat a < int (length es)"
    using assms(1) in_range_nth_mem[OF assms(2)] by (simp add: wf_links_def)
  have "\<forall>h\<in>set (heads[nat a := int (length es)]). - 1 \<le> h \<and> h < int (length (es @ [e]))"
    using assms(1) by (fastforce simp: wf_links_def dest: set_update_cases)
  moreover have "\<forall>i<length (es @ [e]). - 1 \<le> link ((es @ [e]) ! i) \<and> link ((es @ [e]) ! i) < int i"
    using assms(1,3) h by (auto simp: wf_links_def nth_append less_Suc_eq)
  ultimately show ?thesis by (simp add: wf_links_def)
qed

lemma wf_adj_insert:
  assumes "wf_adj adj k" "0 \<le> a" "a < int k" "j < length adj"
  shows "wf_adj (adj[j := insert a (adj ! j)]) k"
proof -
  from assms(4) have "adj ! j \<in> set adj" by simp
  with assms show ?thesis by (fastforce simp: wf_adj_def dest: set_update_cases)
qed

lemma wf_initial: "wf_graph initial"
  by (simp add: wf_graph_def initial_def wf_links_def wf_ends_def wf_adj_def)

lemma wf_addVertex:
  assumes "wf_graph g"
  shows "wf_graph (addVertex g l)"
proof -
  have "wf_links (edge g) (head_edge g @ [- 1]) edge_next"
    and "wf_links (edge g) (rev_head_edge g @ [- 1]) edge_prev"
    using assms by (auto simp: wf_graph_def wf_links_def)
  moreover have "wf_ends (edge g) (Suc (length (vertex g)))"
    using assms by (fastforce simp: wf_graph_def wf_ends_def)
  moreover have "wf_adj (pred g @ [{}]) (Suc (length (vertex g)))"
    and "wf_adj (succ g @ [{}]) (Suc (length (vertex g)))"
    using assms by (fastforce simp: wf_graph_def wf_adj_def)+
  ultimately show ?thesis using assms by (simp add: wf_graph_def addVertex_def)
qed

lemma wf_addEdge:
  assumes "wf_graph g" "addEdge g a b l = Inr g'"
  shows "wf_graph g'"
proof -
  let ?e = "\<lparr>edge_u = a, edge_v = b, edge_label = l,
             edge_next = head_edge g ! nat a, edge_prev = rev_head_edge g ! nat b\<rparr>"
  from assms(2) have ra: "in_range (head_edge g) a" and rb: "in_range (rev_head_edge g) b"
    and g': "g' = g\<lparr>edge := edge g @ [?e],
              head_edge := (head_edge g)[nat a := edge_count g],
              rev_head_edge := (rev_head_edge g)[nat b := edge_count g],
              edge_count := edge_count g + 1,
              pred := (pred g)[nat b := insert a (pred g ! nat b)],
              succ := (succ g)[nat a := insert b (succ g ! nat a)]\<rparr>"
    by (auto simp: addEdge_def bnd_eq_Inr at_eq_Inr upd_eq_Inr)
  from assms(1) have ec: "edge_count g = int (length (edge g))"
    and lh: "length (head_edge g) = length (vertex g)"
    and lr: "length (rev_head_edge g) = length (vertex g)"
    and lp: "length (pred g) = length (vertex g)"
    and ls: "length (succ g) = length (vertex g)"
    by (simp_all add: wf_graph_def wf_adj_def)
  from ra rb lh lr have a: "0 \<le> a" "a < int (length (vertex g))"
    and b: "0 \<le> b" "b < int (length (vertex g))"
    by (simp_all add: in_range_def)
  have 1: "wf_links (edge g @ [?e]) ((head_edge g)[nat a := edge_count g]) edge_next"
    unfolding ec using assms(1) ra by (intro wf_links_snoc) (simp_all add: wf_graph_def)
  have 2: "wf_links (edge g @ [?e]) ((rev_head_edge g)[nat b := edge_count g]) edge_prev"
    unfolding ec using assms(1) rb by (intro wf_links_snoc) (simp_all add: wf_graph_def)
  have 3: "wf_ends (edge g @ [?e]) (length (vertex g))"
    using assms(1) a b by (auto simp: wf_graph_def wf_ends_def)
  have 4: "wf_adj ((pred g)[nat b := insert a (pred g ! nat b)]) (length (vertex g))"
    using assms(1) a b lp by (intro wf_adj_insert) (simp_all add: wf_graph_def)
  have 5: "wf_adj ((succ g)[nat a := insert b (succ g ! nat a)]) (length (vertex g))"
    using assms(1) a b ls by (intro wf_adj_insert) (simp_all add: wf_graph_def)
  show ?thesis
    unfolding g' using assms(1) 1 2 3 4 5 ec by (simp add: wf_graph_def)
qed

lemma wf_build: "wf_graph g \<Longrightarrow> build g cs = Inr g' \<Longrightarrow> wf_graph g'"
proof (induction g cs rule: build.induct)
  case (1 g)
  then show ?case by simp
next
  case (2 g l cs)
  then show ?case by (simp add: wf_addVertex)
next
  case (3 g a b l cs)
  then show ?case by (auto simp: bnd_eq_Inr dest: wf_addEdge)
qed

lemma wf_graph_ranges:
  assumes "wf_graph G"
  shows "in_range (head_edge G) i = in_range (vertex G) i"
    and "in_range (rev_head_edge G) i = in_range (vertex G) i"
    and "in_range (pred G) i = in_range (vertex G) i"
    and "in_range (succ G) i = in_range (vertex G) i"
  using assms by (simp_all add: wf_graph_def wf_adj_def in_range_def)

lemma wf_graph_ends:
  assumes "wf_graph G" "e \<in> set (edge G)"
  shows "in_range (vertex G) (edge_u e)" "in_range (vertex G) (edge_v e)"
  using assms by (auto simp: wf_graph_def wf_ends_def in_range_def)

lemma wf_graph_adj:
  assumes "wf_graph G" "in_range (vertex G) i"
  shows "\<forall>a\<in>pred G ! nat i. in_range (vertex G) a" "\<forall>a\<in>succ G ! nat i. in_range (vertex G) a"
    "finite (pred G ! nat i)" "finite (succ G ! nat i)"
proof -
  have p: "pred G ! nat i \<in> set (pred G)" and s: "succ G ! nat i \<in> set (succ G)"
    using assms wf_graph_ranges[OF assms(1)] by (auto intro: in_range_nth_mem)
  show 1: "\<forall>a\<in>pred G ! nat i. in_range (vertex G) a"
    using assms(1) p by (auto simp: wf_graph_def wf_adj_def in_range_def)
  show 2: "\<forall>a\<in>succ G ! nat i. in_range (vertex G) a"
    using assms(1) s by (auto simp: wf_graph_def wf_adj_def in_range_def)
  show "finite (pred G ! nat i)"
    by (rule finite_subset[of _ "{0..int (length (vertex G))}"]) (use 1 in \<open>auto simp: in_range_def\<close>)
  show "finite (succ G ! nat i)"
    by (rule finite_subset[of _ "{0..int (length (vertex G))}"]) (use 2 in \<open>auto simp: in_range_def\<close>)
qed

section \<open>The walks along the edge links\<close>

lemma bnd_Inr_I: "m = Inr x \<Longrightarrow> f x = r \<Longrightarrow> bnd m f = r"
  by simp

lemma at_Inr_I: "in_range xs i \<Longrightarrow> at xs i = Inr (xs ! nat i)"
  by (simp add: at_def)

lemma wf_links_dec: "wf_links es heads link \<Longrightarrow> dec_links es link"
  by (simp add: wf_links_def dec_links_def)

lemma wf_links_head:
  "wf_links es heads link \<Longrightarrow> in_range heads m \<Longrightarrow>
     - 1 \<le> heads ! nat m \<and> heads ! nat m < int (length es)"
  using in_range_nth_mem[of heads m] by (simp add: wf_links_def)

lemma dec_links_step:
  assumes "dec_links es link" "in_range es h"
  shows "- 1 \<le> link (es ! nat h) \<and> link (es ! nat h) < h"
  using assms by (auto simp: dec_links_def in_range_def dest!: spec[where x="nat h"])

lemma find_edge_total:
  assumes "dec_links es link"
  shows "- 1 \<le> h \<Longrightarrow> h < int (length es) \<Longrightarrow> h + 2 \<le> int fuel \<Longrightarrow>
         \<exists>b. find_edge endp link fuel es h mv l = Inr b"
proof (induction fuel arbitrary: h)
  case 0
  then show ?case by simp
next
  case (Suc k)
  show ?case
  proof (cases "h = - 1")
    case True
    then show ?thesis by auto
  next
    case False
    with Suc.prems have r: "in_range es h" by (simp add: in_range_def)
    from dec_links_step[OF assms r] Suc.prems
    have "\<exists>b. find_edge endp link k es (link (es ! nat h)) mv l = Inr b"
      by (intro Suc.IH) auto
    with False r show ?thesis by (auto simp: at_def)
  qed
qed

lemma edges_ok_total:
  assumes d1: "dec_links es1 link" and w2: "wf_links es2 heads2 link"
    and m: "in_range heads2 m" and ends: "\<forall>e\<in>set es1. in_range c1 (endp e)"
  shows "- 1 \<le> eid \<Longrightarrow> eid < int (length es1) \<Longrightarrow> eid + 2 \<le> int fuel \<Longrightarrow>
         \<exists>b. edges_ok endp link fuel es1 c1 es2 heads2 m eid = Inr b"
proof (induction fuel arbitrary: eid)
  case 0
  then show ?case by simp
next
  case (Suc k)
  show ?case
  proof (cases "eid = - 1")
    case True
    then show ?thesis by auto
  next
    case False
    with Suc.prems have r: "in_range es1 eid" by (simp add: in_range_def)
    let ?e = "es1 ! nat eid"
    have e: "at es1 eid = Inr ?e" using r by (rule at_Inr_I)
    have c: "at c1 (endp ?e) = Inr (c1 ! nat (endp ?e))"
      using ends in_range_nth_mem[OF r] by (intro at_Inr_I) simp
    have h: "at heads2 m = Inr (heads2 ! nat m)" using m by (rule at_Inr_I)
    from dec_links_step[OF d1 r] Suc.prems
    obtain b where rec: "edges_ok endp link k es1 c1 es2 heads2 m (link ?e) = Inr b"
      using Suc.IH[of "link ?e"] by auto
    have "\<exists>f. find_edge endp link (Suc (length es2)) es2 (heads2 ! nat m)
        (c1 ! nat (endp ?e)) (edge_label ?e) = Inr f"
      using wf_links_head[OF w2 m]
      by (intro find_edge_total[OF wf_links_dec[OF w2]]) simp_all
    then obtain f where f: "find_edge endp link (Suc (length es2)) es2 (heads2 ! nat m)
        (c1 ! nat (endp ?e)) (edge_label ?e) = Inr f"
      by blast
    show ?thesis
      using False e c h rec f by (cases f) (auto simp del: find_edge.simps)
  qed
qed

lemma on_chain_in_range: "on_chain link es h eid \<Longrightarrow> in_range es eid"
  by (induction rule: on_chain.induct) auto

lemma on_chain_next:
  "on_chain link es h eid \<Longrightarrow> in_range es (link (es ! nat eid)) \<Longrightarrow>
     on_chain link es h (link (es ! nat eid))"
  by (induction rule: on_chain.induct) (auto intro: on_chain.intros)

lemma find_edge_finds:
  assumes d: "dec_links es link"
  shows "on_chain link es h eid \<Longrightarrow> h + 2 \<le> int fuel \<Longrightarrow>
     find_edge endp link fuel es h (endp (es ! nat eid)) (edge_label (es ! nat eid)) = Inr True"
proof (induction arbitrary: fuel rule: on_chain.induct)
  case (here h)
  then obtain k where "fuel = Suc k" by (cases fuel) (auto simp: in_range_def)
  with here show ?case by (auto simp: at_def in_range_def)
next
  case (step h eid)
  then obtain k where k: "fuel = Suc k" by (cases fuel) (auto simp: in_range_def)
  from dec_links_step[OF d step.hyps(1)] step.prems k
  have "find_edge endp link k es (link (es ! nat h)) (endp (es ! nat eid))
          (edge_label (es ! nat eid)) = Inr True"
    by (intro step.IH) auto
  with step.hyps(1) k show ?case by (auto simp: at_def in_range_def)
qed

lemma edges_ok_same:
  assumes w: "wf_links es heads link" and m: "in_range heads m"
    and ends: "\<forall>e\<in>set es. in_range c1 (endp e)"
    and idem: "\<forall>i. in_range c1 i \<longrightarrow> c1 ! nat i = - 1 \<or> c1 ! nat i = i"
  shows "eid = - 1 \<or> on_chain link es (heads ! nat m) eid \<Longrightarrow> eid + 2 \<le> int fuel \<Longrightarrow>
         edges_ok endp link fuel es c1 es heads m eid = Inr True"
proof (induction fuel arbitrary: eid)
  case 0
  then show ?case by (auto dest: on_chain_in_range simp: in_range_def)
next
  case (Suc k)
  show ?case
  proof (cases "eid = - 1")
    case True
    then show ?thesis by simp
  next
    case False
    with Suc.prems have oc: "on_chain link es (heads ! nat m) eid" by simp
    then have r: "in_range es eid" by (rule on_chain_in_range)
    let ?e = "es ! nat eid"
    have e: "at es eid = Inr ?e" using r by (rule at_Inr_I)
    have cr: "in_range c1 (endp ?e)" using ends in_range_nth_mem[OF r] by simp
    then have c: "at c1 (endp ?e) = Inr (c1 ! nat (endp ?e))" by (rule at_Inr_I)
    have h: "at heads m = Inr (heads ! nat m)" using m by (rule at_Inr_I)
    have st: "- 1 \<le> link ?e \<and> link ?e < eid"
      using dec_links_step[OF wf_links_dec[OF w] r] .
    then have "link ?e = - 1 \<or> in_range es (link ?e)" using r by (auto simp: in_range_def)
    then have "link ?e = - 1 \<or> on_chain link es (heads ! nat m) (link ?e)"
      using on_chain_next[OF oc] by auto
    then have rec: "edges_ok endp link k es c1 es heads m (link ?e) = Inr True"
      using st Suc.prems by (intro Suc.IH) auto
    have f: "find_edge endp link (Suc (length es)) es (heads ! nat m)
        (endp ?e) (edge_label ?e) = Inr True"
      using wf_links_head[OF w m] by (intro find_edge_finds[OF wf_links_dec[OF w] oc]) simp
    from idem cr have "c1 ! nat (endp ?e) = - 1 \<or> c1 ! nat (endp ?e) = endp ?e" by blast
    then show ?thesis
      using False e c h rec f by (auto simp del: find_edge.simps)
  qed
qed

section \<open>The loops over sets and vertex ranges\<close>

lemma finite_mapped [simp]: "finite (mapped c)"
  by (rule finite_subset[of _ "{0..int (length c)}"]) (auto simp: mapped_def in_range_def)

lemma finite_unmapped [simp]: "finite (unmapped c)"
  by (rule finite_subset[of _ "{0..int (length c)}"]) (auto simp: unmapped_def in_range_def)

lemma set_sorted_list_subset: "set (sorted_list_of_set A) \<subseteq> (A :: int set)"
  by (cases "finite A") auto

lemma set_intersection_size_card:
  "finite a \<Longrightarrow> set_intersection_size a b = int (card (a \<inter> b))"
  by (simp add: set_intersection_size_def distinct_length_filter Int_commute)

lemma genComplementary_Inr:
  "genComplementary vids core ins outs = Inr N \<longleftrightarrow>
     (\<forall>v\<in>set vids. in_range core v) \<and>
     N = {v \<in> set vids. core ! nat v = NULL_VIndex \<and> v \<notin> ins \<and> v \<notin> outs}"
  by (induction vids arbitrary: N) (auto simp: bnd_eq_Inr at_eq_Inr)

lemma genComplementary_total:
  assumes "int (length core) = k"
  shows "genComplementary [0..k - 1] core ins outs
     = Inr {v. in_range core v \<and> core ! nat v = NULL_VIndex \<and> v \<notin> ins \<and> v \<notin> outs}"
  using assms by (auto simp: genComplementary_Inr in_range_def)

lemma mapped_back_value:
  assumes "\<forall>v\<in>set vs. v \<in> mapped c2" "in_range adj1 n"
  shows "mapped_back c2 adj1 n vs = Inr (\<forall>v\<in>set vs. c2 ! nat v \<in> adj1 ! nat n)"
  using assms by (induction vs) (auto simp: at_def mapped_def)

lemma in_range_same_length: "length xs = length ys \<Longrightarrow> in_range xs i = in_range ys i"
  by (simp add: in_range_def)

lemma scan_down_Inr:
  "scan_down c k = Inr r \<Longrightarrow> r = - 1 \<or> r \<in> unmapped c"
  by (induction k) (auto simp: bnd_eq_Inr at_eq_Inr unmapped_def split: if_splits)

lemma upto_mem: "a \<in> set [0..k - 1] \<longleftrightarrow> 0 \<le> a \<and> a < k"
  by auto

lemma max_of_mem:
  assumes "finite A" "A \<noteq> {}" "\<forall>a\<in>A. 0 \<le> a"
  shows "max_of A \<in> A"
proof -
  have "max_of A = Max (set ((- 1) # sorted_list_of_set A))"
    unfolding max_of_def by (simp only: Max.set_eq_fold)
  also have "\<dots> = Max (insert (- 1) A)" using assms(1) by simp
  finally have eq: "max_of A = Max (insert (- 1) A)" .
  have "Max (insert (- 1) A) \<in> insert (- 1) A" using assms(1) by (intro Max_in) auto
  moreover obtain a where "a \<in> A" using assms(2) by blast
  then have "0 \<le> Max (insert (- 1) A)"
    using assms(1,3) by (meson Max_ge finite_insert insertCI order_trans)
  ultimately show ?thesis using eq by auto
qed

section \<open>The rules return an answer on well-formed graphs\<close>

lemma checkSemRules_value:
  assumes "in_range (vertex G1) n" "in_range (vertex G2) m"
  shows "checkSemRules s G1 G2 n m = Inr (vertex G1 ! nat n = vertex G2 ! nat m)"
  using assms by (simp add: checkSemRules_def at_def)

lemma checkPredRule_total:
  assumes w1: "wf_graph G1" and w2: "wf_graph G2" and f: "fits G1 G2 s"
    and M: "M2 s = mapped (core_2 s)"
    and n: "in_range (vertex G1) n" and m: "in_range (vertex G2) m"
  shows "\<exists>b. checkPredRule s G1 G2 n m = Inr b"
proof -
  let ?h = "head_edge G1 ! nat n"
  have h: "at (head_edge G1) n = Inr ?h"
    using n wf_graph_ranges[OF w1] by (simp add: at_def)
  have l1: "wf_links (edge G1) (head_edge G1) edge_next"
    and l2: "wf_links (edge G2) (head_edge G2) edge_next"
    using w1 w2 by (simp_all add: wf_graph_def)
  have hr: "- 1 \<le> ?h \<and> ?h < int (length (edge G1))"
    using n wf_graph_ranges[OF w1] by (intro wf_links_head[OF l1]) simp
  have ends: "\<forall>e\<in>set (edge G1). in_range (core_1 s) (edge_v e)"
    using wf_graph_ends[OF w1] f by (simp add: fits_def in_range_def)
  have "\<exists>b. edges_ok edge_v edge_next (Suc (length (edge G1))) (edge G1) (core_1 s)
            (edge G2) (head_edge G2) m ?h = Inr b"
    using hr m wf_graph_ranges[OF w2]
    by (intro edges_ok_total[OF wf_links_dec[OF l1] l2 _ ends]) simp_all
  then obtain ok where ok: "edges_ok edge_v edge_next (Suc (length (edge G1))) (edge G1) (core_1 s)
            (edge G2) (head_edge G2) m ?h = Inr ok" by blast
  have p: "at (pred G2) m = Inr (pred G2 ! nat m)"
    using m wf_graph_ranges[OF w2] by (simp add: at_def)
  have "\<forall>v\<in>set (sorted_list_of_set (M2 s \<inter> pred G2 ! nat m)). v \<in> mapped (core_2 s)"
    using set_sorted_list_subset[of "M2 s \<inter> pred G2 ! nat m"] M by auto
  then have "mapped_back (core_2 s) (pred G1) n (sorted_list_of_set (M2 s \<inter> pred G2 ! nat m))
      = Inr (\<forall>v\<in>set (sorted_list_of_set (M2 s \<inter> pred G2 ! nat m)).
               core_2 s ! nat v \<in> pred G1 ! nat n)"
    using n wf_graph_ranges[OF w1] by (intro mapped_back_value) simp_all
  then show ?thesis
    unfolding checkPredRule_def using h ok p by (cases ok) (auto simp del: edges_ok.simps)
qed

lemma checkSuccRule_total:
  assumes w1: "wf_graph G1" and w2: "wf_graph G2" and f: "fits G1 G2 s"
    and M: "M2 s = mapped (core_2 s)"
    and n: "in_range (vertex G1) n" and m: "in_range (vertex G2) m"
  shows "\<exists>b. checkSuccRule s G1 G2 n m = Inr b"
proof -
  let ?h = "rev_head_edge G1 ! nat n"
  have h: "at (rev_head_edge G1) n = Inr ?h"
    using n wf_graph_ranges[OF w1] by (simp add: at_def)
  have l1: "wf_links (edge G1) (rev_head_edge G1) edge_prev"
    and l2: "wf_links (edge G2) (rev_head_edge G2) edge_prev"
    using w1 w2 by (simp_all add: wf_graph_def)
  have hr: "- 1 \<le> ?h \<and> ?h < int (length (edge G1))"
    using n wf_graph_ranges[OF w1] by (intro wf_links_head[OF l1]) simp
  have ends: "\<forall>e\<in>set (edge G1). in_range (core_1 s) (edge_u e)"
    using wf_graph_ends[OF w1] f by (simp add: fits_def in_range_def)
  have "\<exists>b. edges_ok edge_u edge_prev (Suc (length (edge G1))) (edge G1) (core_1 s)
            (edge G2) (rev_head_edge G2) m ?h = Inr b"
    using hr m wf_graph_ranges[OF w2]
    by (intro edges_ok_total[OF wf_links_dec[OF l1] l2 _ ends]) simp_all
  then obtain ok where ok: "edges_ok edge_u edge_prev (Suc (length (edge G1))) (edge G1) (core_1 s)
            (edge G2) (rev_head_edge G2) m ?h = Inr ok" by blast
  have p: "at (succ G2) m = Inr (succ G2 ! nat m)"
    using m wf_graph_ranges[OF w2] by (simp add: at_def)
  have "\<forall>v\<in>set (sorted_list_of_set (M2 s \<inter> succ G2 ! nat m)). v \<in> mapped (core_2 s)"
    using set_sorted_list_subset[of "M2 s \<inter> succ G2 ! nat m"] M by auto
  then have "mapped_back (core_2 s) (succ G1) n (sorted_list_of_set (M2 s \<inter> succ G2 ! nat m))
      = Inr (\<forall>v\<in>set (sorted_list_of_set (M2 s \<inter> succ G2 ! nat m)).
               core_2 s ! nat v \<in> succ G1 ! nat n)"
    using n wf_graph_ranges[OF w1] by (intro mapped_back_value) simp_all
  then show ?thesis
    unfolding checkSuccRule_def using h ok p by (cases ok) (auto simp del: edges_ok.simps)
qed

lemma checkInRule_total:
  assumes w1: "wf_graph G1" and w2: "wf_graph G2"
    and n: "in_range (vertex G1) n" and m: "in_range (vertex G2) m"
  shows "\<exists>b. checkInRule s G1 G2 n m = Inr b"
  using n m wf_graph_ranges[OF w1] wf_graph_ranges[OF w2]
  by (auto simp: checkInRule_def at_def Let_def)

lemma checkOutRule_total:
  assumes w1: "wf_graph G1" and w2: "wf_graph G2"
    and n: "in_range (vertex G1) n" and m: "in_range (vertex G2) m"
  shows "\<exists>b. checkOutRule s G1 G2 n m = Inr b"
  using n m wf_graph_ranges[OF w1] wf_graph_ranges[OF w2]
  by (auto simp: checkOutRule_def at_def Let_def)

lemma checkNewRule_total:
  assumes w1: "wf_graph G1" and w2: "wf_graph G2" and f: "fits G1 G2 s"
    and n: "in_range (vertex G1) n" and m: "in_range (vertex G2) m"
  shows "\<exists>b. checkNewRule s G1 G2 n m = Inr b"
proof -
  have 1: "int (length (core_1 s)) = vertex_count G1" and 2: "int (length (core_2 s)) = vertex_count G2"
    using w1 w2 f by (simp_all add: wf_graph_def fits_def)
  show ?thesis
    unfolding checkNewRule_def genComplementary_total[OF 1] genComplementary_total[OF 2]
    using n m wf_graph_ranges[OF w1] wf_graph_ranges[OF w2]
    by (auto simp: at_def Let_def)
qed

lemma andalso_total: "a = Inr x \<Longrightarrow> b = Inr y \<Longrightarrow> andalso a b = Inr (x \<and> y)"
  by (simp add: andalso_def)

lemma checkSynRules_total:
  assumes w1: "wf_graph G1" and w2: "wf_graph G2" and f: "fits G1 G2 s"
    and M: "M2 s = mapped (core_2 s)"
    and n: "in_range (vertex G1) n" and m: "in_range (vertex G2) m"
  shows "\<exists>b. checkSynRules s G1 G2 n m = Inr b"
proof -
  from checkPredRule_total[OF w1 w2 f M n m] obtain b1 where 1: "checkPredRule s G1 G2 n m = Inr b1" ..
  from checkSuccRule_total[OF w1 w2 f M n m] obtain b2 where 2: "checkSuccRule s G1 G2 n m = Inr b2" ..
  from checkInRule_total[OF w1 w2 n m] obtain b3 where 3: "checkInRule s G1 G2 n m = Inr b3" ..
  from checkOutRule_total[OF w1 w2 n m] obtain b4 where 4: "checkOutRule s G1 G2 n m = Inr b4" ..
  from checkNewRule_total[OF w1 w2 f n m] obtain b5 where 5: "checkNewRule s G1 G2 n m = Inr b5" ..
  show ?thesis unfolding checkSynRules_def 1 2 3 4 5 by (auto simp: andalso_def)
qed

section \<open>The invariant of the core vectors\<close>

lemma nth_update_int:
  "in_range c n \<Longrightarrow> 0 \<le> i \<Longrightarrow> c[nat n := v] ! nat i = (if i = n then v else c ! nat i)"
  by (auto simp: in_range_def nth_list_update)

lemma in_range_update [simp]: "in_range (c[k := v]) i = in_range c i"
  by (simp add: in_range_def)

lemma mapped_update:
  "in_range c n \<Longrightarrow> v \<noteq> - 1 \<Longrightarrow> mapped (c[nat n := v]) = insert n (mapped c)"
  by (auto simp: mapped_def nth_update_int in_range_def[of c] split: if_splits)

lemma unmapped_update:
  "in_range c n \<Longrightarrow> v \<noteq> - 1 \<Longrightarrow> unmapped (c[nat n := v]) = unmapped c - {n}"
  by (auto simp: unmapped_def nth_update_int in_range_def[of c] split: if_splits)

lemma mapped_unmapped_disjoint: "i \<in> unmapped c \<Longrightarrow> i \<notin> mapped c"
  by (simp add: mapped_def unmapped_def)

lemma addNewPair_Inr:
  "addNewPair s n m p1 p2 s1 s2 = Inr s' \<longleftrightarrow>
     in_range (core_1 s) n \<and> in_range (core_2 s) m \<and>
     (\<forall>a\<in>set (sorted_list_of_set p1). in_range (core_1 s) a) \<and>
     (\<forall>a\<in>set (sorted_list_of_set p2). in_range (core_2 s) a) \<and>
     (\<forall>a\<in>set (sorted_list_of_set s1). in_range (core_1 s) a) \<and>
     (\<forall>a\<in>set (sorted_list_of_set s2). in_range (core_2 s) a) \<and>
     s' = s\<lparr>M1 := insert n (M1 s), M2 := insert m (M2 s),
            core_1 := (core_1 s)[nat n := m], core_2 := (core_2 s)[nat m := n],
            in_1 := (in_1 s \<union> {a \<in> set (sorted_list_of_set p1).
                       (core_1 s)[nat n := m] ! nat a = - 1}) - {n},
            in_2 := (in_2 s \<union> {a \<in> set (sorted_list_of_set p2).
                       (core_2 s)[nat m := n] ! nat a = - 1}) - {m},
            out_1 := (out_1 s \<union> {a \<in> set (sorted_list_of_set s1).
                       (core_1 s)[nat n := m] ! nat a = - 1}) - {n},
            out_2 := (out_2 s \<union> {a \<in> set (sorted_list_of_set s2).
                       (core_2 s)[nat m := n] ! nat a = - 1}) - {m}\<rparr>"
  unfolding addNewPair_def
  by (auto simp: bnd_eq_Inr upd_eq_Inr add_unmapped_Inr)

lemma core_inv_addNewPair:
  assumes inv: "core_inv s" and n: "n \<in> unmapped (core_1 s)" and m: "m \<in> unmapped (core_2 s)"
    and add: "addNewPair s n m p1 p2 s1 s2 = Inr s'"
  shows "core_inv s'"
proof -
  let ?c1 = "(core_1 s)[nat n := m]" and ?c2 = "(core_2 s)[nat m := n]"
  from n m have rn: "in_range (core_1 s) n" and rm: "in_range (core_2 s) m"
    and n0: "n \<noteq> - 1" and m0: "m \<noteq> - 1" "0 \<le> n" "0 \<le> m"
    by (auto simp: unmapped_def in_range_def)
  note A = add[unfolded addNewPair_Inr]
  from A have c1: "core_1 s' = ?c1" and c2: "core_2 s' = ?c2"
    and M1': "M1 s' = insert n (M1 s)" and M2': "M2 s' = insert m (M2 s)" by simp_all
  have map1: "mapped ?c1 = insert n (mapped (core_1 s))" using rn m0 by (simp add: mapped_update)
  have map2: "mapped ?c2 = insert m (mapped (core_2 s))" using rm n0 by (simp add: mapped_update)
  have un1: "unmapped ?c1 = unmapped (core_1 s) - {n}" using rn m0 by (simp add: unmapped_update)
  have un2: "unmapped ?c2 = unmapped (core_2 s) - {m}" using rm n0 by (simp add: unmapped_update)
  have new1: "\<And>p. (\<forall>a\<in>set (sorted_list_of_set p). in_range (core_1 s) a) \<Longrightarrow>
      {a \<in> set (sorted_list_of_set p). ?c1 ! nat a = - 1} \<subseteq> unmapped ?c1"
    by (auto simp: unmapped_def)
  have new2: "\<And>p. (\<forall>a\<in>set (sorted_list_of_set p). in_range (core_2 s) a) \<Longrightarrow>
      {a \<in> set (sorted_list_of_set p). ?c2 ! nat a = - 1} \<subseteq> unmapped ?c2"
    by (auto simp: unmapped_def)
  have i1: "in_1 s' \<subseteq> unmapped ?c1"
  proof -
    from A have "in_1 s' = (in_1 s \<union> {a \<in> set (sorted_list_of_set p1). ?c1 ! nat a = - 1}) - {n}"
      by simp
    moreover have "in_1 s - {n} \<subseteq> unmapped ?c1" using inv un1 by (auto simp: core_inv_def)
    moreover have "{a \<in> set (sorted_list_of_set p1). ?c1 ! nat a = - 1} \<subseteq> unmapped ?c1"
      using A by (intro new1) simp
    ultimately show ?thesis by blast
  qed
  have o1: "out_1 s' \<subseteq> unmapped ?c1"
  proof -
    from A have "out_1 s' = (out_1 s \<union> {a \<in> set (sorted_list_of_set s1). ?c1 ! nat a = - 1}) - {n}"
      by simp
    moreover have "out_1 s - {n} \<subseteq> unmapped ?c1" using inv un1 by (auto simp: core_inv_def)
    moreover have "{a \<in> set (sorted_list_of_set s1). ?c1 ! nat a = - 1} \<subseteq> unmapped ?c1"
      using A by (intro new1) simp
    ultimately show ?thesis by blast
  qed
  have i2: "in_2 s' \<subseteq> unmapped ?c2"
  proof -
    from A have "in_2 s' = (in_2 s \<union> {a \<in> set (sorted_list_of_set p2). ?c2 ! nat a = - 1}) - {m}"
      by simp
    moreover have "in_2 s - {m} \<subseteq> unmapped ?c2" using inv un2 by (auto simp: core_inv_def)
    moreover have "{a \<in> set (sorted_list_of_set p2). ?c2 ! nat a = - 1} \<subseteq> unmapped ?c2"
      using A by (intro new2) simp
    ultimately show ?thesis by blast
  qed
  have o2: "out_2 s' \<subseteq> unmapped ?c2"
  proof -
    from A have "out_2 s' = (out_2 s \<union> {a \<in> set (sorted_list_of_set s2). ?c2 ! nat a = - 1}) - {m}"
      by simp
    moreover have "out_2 s - {m} \<subseteq> unmapped ?c2" using inv un2 by (auto simp: core_inv_def)
    moreover have "{a \<in> set (sorted_list_of_set s2). ?c2 ! nat a = - 1} \<subseteq> unmapped ?c2"
      using A by (intro new2) simp
    ultimately show ?thesis by blast
  qed
  have b1: "\<forall>x\<in>mapped ?c1. ?c1 ! nat x \<in> mapped ?c2 \<and> ?c2 ! nat (?c1 ! nat x) = x"
  proof
    fix x assume x: "x \<in> mapped ?c1"
    show "?c1 ! nat x \<in> mapped ?c2 \<and> ?c2 ! nat (?c1 ! nat x) = x"
    proof (cases "x = n")
      case True
      then show ?thesis using rn rm m0 by (simp add: nth_update_int map2)
    next
      case False
      with x map1 have xm: "x \<in> mapped (core_1 s)" by simp
      then have x0: "0 \<le> x" by (simp add: mapped_def in_range_def)
      let ?y = "core_1 s ! nat x"
      from inv xm have y: "?y \<in> mapped (core_2 s)" "core_2 s ! nat ?y = x"
        by (auto simp: core_inv_def)
      with m have ym: "?y \<noteq> m" "0 \<le> ?y" by (auto simp: mapped_def unmapped_def in_range_def)
      show ?thesis using False x0 rn rm y ym by (simp add: nth_update_int map2)
    qed
  qed
  have b2: "\<forall>x\<in>mapped ?c2. ?c2 ! nat x \<in> mapped ?c1 \<and> ?c1 ! nat (?c2 ! nat x) = x"
  proof
    fix x assume x: "x \<in> mapped ?c2"
    show "?c2 ! nat x \<in> mapped ?c1 \<and> ?c1 ! nat (?c2 ! nat x) = x"
    proof (cases "x = m")
      case True
      then show ?thesis using rn rm m0 by (simp add: nth_update_int map1)
    next
      case False
      with x map2 have xm: "x \<in> mapped (core_2 s)" by simp
      then have x0: "0 \<le> x" by (simp add: mapped_def in_range_def)
      let ?y = "core_2 s ! nat x"
      from inv xm have y: "?y \<in> mapped (core_1 s)" "core_1 s ! nat ?y = x"
        by (auto simp: core_inv_def)
      with n have ym: "?y \<noteq> n" "0 \<le> ?y" by (auto simp: mapped_def unmapped_def in_range_def)
      show ?thesis using False x0 rn rm y ym by (simp add: nth_update_int map1)
    qed
  qed
  show ?thesis
    unfolding core_inv_def c1 c2 M1' M2'
    using inv i1 i2 o1 o2 b1 b2 map1 map2 c1 c2
    by (simp add: core_inv_def)
qed

lemma core_inv_newState: "core_inv (newState count sub)"
  by (auto simp: core_inv_def newState_def mapped_def unmapped_def in_range_def)

lemma genCandi_fresh:
  assumes inv: "core_inv s" and gen: "genCandiPairSet s = Inr P" and mem: "(n, m) \<in> set P"
  shows "n \<in> unmapped (core_1 s) \<and> (m = - 1 \<or> m \<in> unmapped (core_2 s))"
proof -
  have sub: "finite A \<and> (\<forall>a\<in>A. 0 \<le> a)" if "A \<subseteq> unmapped c" for A c
  proof
    show "finite A" using that by (rule finite_subset) simp
    show "\<forall>a\<in>A. 0 \<le> a" using that by (auto simp: unmapped_def in_range_def)
  qed
  consider (out) "out_1 s \<noteq> {}" "out_2 s \<noteq> {}"
    | (inn) "\<not> (out_1 s \<noteq> {} \<and> out_2 s \<noteq> {})" "in_1 s \<noteq> {}" "in_2 s \<noteq> {}"
    | (all) "\<not> (out_1 s \<noteq> {} \<and> out_2 s \<noteq> {})" "\<not> (in_1 s \<noteq> {} \<and> in_2 s \<noteq> {})"
    by blast
  then show ?thesis
  proof cases
    case out
    from inv have o1: "out_1 s \<subseteq> unmapped (core_1 s)" and o2: "out_2 s \<subseteq> unmapped (core_2 s)"
      by (simp_all add: core_inv_def)
    from gen mem out have "n \<in> set (sorted_list_of_set (out_1 s))" "m = max_of (out_2 s)"
      by (auto simp: genCandiPairSet_def)
    moreover have "max_of (out_2 s) \<in> out_2 s" using sub[OF o2] out by (intro max_of_mem) auto
    ultimately show ?thesis using o1 o2 set_sorted_list_subset[of "out_1 s"] by auto
  next
    case inn
    from inv have o1: "in_1 s \<subseteq> unmapped (core_1 s)" and o2: "in_2 s \<subseteq> unmapped (core_2 s)"
      by (simp_all add: core_inv_def)
    from gen mem inn have "n \<in> set (sorted_list_of_set (in_1 s))" "m = max_of (in_2 s)"
      by (auto simp: genCandiPairSet_def)
    moreover have "max_of (in_2 s) \<in> in_2 s" using sub[OF o2] inn by (intro max_of_mem) auto
    ultimately show ?thesis using o1 o2 set_sorted_list_subset[of "in_1 s"] by auto
  next
    case all
    with gen obtain r where
      r: "(if s_vertex_count s < 0 then Inr (s_vertex_count s - 1)
           else scan_down (core_2 s) (nat (s_vertex_count s))) = Inr r"
      and P: "unmapped_pairs (core_1 s) r [0..s_vertex_count s - 1] = Inr P"
      by (auto simp: genCandiPairSet_def bnd_eq_Inr)
    from P mem have "n \<in> unmapped (core_1 s)" "m = r" "0 \<le> s_vertex_count s"
      by (auto simp: unmapped_pairs_Inr unmapped_def)
    with r show ?thesis using scan_down_Inr[of "core_2 s" "nat (s_vertex_count s)" r] by auto
  qed
qed

lemma reachable_core_inv: "reachable G1 G2 sub s \<Longrightarrow> core_inv s"
proof (induction rule: reachable.induct)
  case start
  show ?case by (rule core_inv_newState)
next
  case (extend s P n m p1 p2 s1 s2 s')
  from genCandi_fresh[OF extend.IH extend.hyps(3,4)]
  have n: "n \<in> unmapped (core_1 s)" and m: "m = - 1 \<or> m \<in> unmapped (core_2 s)" by simp_all
  from extend.hyps(10) have "in_range (core_2 s) m" by (simp add: addNewPair_Inr)
  with m have "m \<in> unmapped (core_2 s)" by (auto simp: in_range_def)
  then show ?case by (rule core_inv_addNewPair[OF extend.IH n _ extend.hyps(10)])
qed

section \<open>The example states are states of a search\<close>

lemma fan_state_reachable: "reachable fan1 fan2 False fan_state"
proof -
  have v: "vertex_count fan1 = 3" by (simp add: fan1_def)
  have 0: "reachable fan1 fan2 False (newState 3 False)"
    using reachable.start[of fan1 fan2 False] by (simp add: v)
  have 1: "int (card (M1 (newState 3 False))) \<noteq> s_vertex_count (newState 3 False)"
    by (simp add: newState_def)
  have 2: "genCandiPairSet (newState 3 False) = Inr [(0, 2), (1, 2), (2, 2)]" by code_simp
  have 3: "(2, 2) \<in> set [(0, 2), (1, 2), (2::int, 2::int)]" by simp
  have 4: "andalso (checkSemRules (newState 3 False) fan1 fan2 2 2)
             (checkSynRules (newState 3 False) fan1 fan2 2 2) = Inr True"
    using fan_state_reached by (simp add: andalso_def)
  have 5: "at (pred fan1) 2 = Inr (pred fan1 ! 2)" "at (pred fan2) 2 = Inr (pred fan2 ! 2)"
    "at (succ fan1) 2 = Inr (succ fan1 ! 2)" "at (succ fan2) 2 = Inr (succ fan2 ! 2)"
    by (simp_all add: at_def in_range_def fan1_def fan2_def)
  from fan_state_reached have 6: "addNewPair (newState 3 False) 2 2 (pred fan1 ! 2) (pred fan2 ! 2)
     (succ fan1 ! 2) (succ fan2 ! 2) = Inr fan_state" by simp
  show ?thesis by (rule reachable.extend[OF 0 1 2 3 4 5 6])
qed

section \<open>The invariants of the specification\<close>

lemma vertices_of_wf: "wf_graph G \<Longrightarrow> i \<in> vertices_of G \<longleftrightarrow> in_range (vertex G) i"
  by (simp add: vertices_of_def wf_graph_def in_range_def)

lemma frontier_step:
  assumes "F = {a. a \<notin> M \<and> (\<exists>b\<in>M. a \<in> adj ! nat b)}"
    and "X = {a \<in> adj ! nat n. a \<notin> M \<and> a \<noteq> n}"
  shows "(F \<union> X) - {n} = {a. a \<notin> insert n M \<and> (\<exists>b\<in>insert n M. a \<in> adj ! nat b)}"
  using assms by auto

lemma new_frontier:
  assumes rn: "in_range c n" and v: "v \<noteq> - 1" and cn: "c ! nat n = - 1"
    and P: "finite P" "\<forall>a\<in>P. in_range c a"
    and M: "M = {i. in_range c i \<and> c ! nat i \<noteq> - 1}"
  shows "{a \<in> set (sorted_list_of_set P). c[nat n := v] ! nat a = - 1}
       = {a \<in> P. a \<notin> M \<and> a \<noteq> n}"
proof -
  have "c[nat n := v] ! nat a = - 1 \<longleftrightarrow> a \<notin> M \<and> a \<noteq> n" if "a \<in> P" for a
  proof -
    from that P have r: "in_range c a" by simp
    then have "0 \<le> a" by (simp add: in_range_def)
    then show ?thesis using r rn v cn by (auto simp: nth_update_int M)
  qed
  then show ?thesis using P(1) by auto
qed

lemma core_update_iff:
  assumes rn: "in_range c1 n" and rm: "in_range c2 m"
    and cn: "c1 ! nat n = - 1" and cm: "c2 ! nat m = - 1"
    and old: "\<forall>x. in_range c1 x \<longrightarrow> (\<forall>y. in_range c2 y \<longrightarrow> (c1 ! nat x = y \<longleftrightarrow> c2 ! nat y = x))"
    and x: "in_range c1 x" and y: "in_range c2 y"
  shows "c1[nat n := m] ! nat x = y \<longleftrightarrow> c2[nat m := n] ! nat y = x"
proof -
  from x y rn rm have 0: "0 \<le> x" "0 \<le> y" "0 \<le> n" "0 \<le> m" by (simp_all add: in_range_def)
  have a: "c2 ! nat y \<noteq> n" if "y \<noteq> m"
  proof
    assume "c2 ! nat y = n"
    with old rn y have "c1 ! nat n = y" by blast
    with cn 0 show False by simp
  qed
  have b: "c1 ! nat x \<noteq> m" if "x \<noteq> n"
  proof
    assume "c1 ! nat x = m"
    with old x rm have "c2 ! nat m = x" by blast
    with cm 0 show False by simp
  qed
  show ?thesis
    using 0 rn rm a b old x y by (auto simp: nth_update_int)
qed

lemma state_inv_newState:
  assumes "wf_graph G1" "wf_graph G2" "vertex_count G2 = vertex_count G1"
  shows "state_inv G1 G2 (newState (vertex_count G1) sub)"
proof -
  have len: "length (vertex G2) = length (vertex G1)" "nat (vertex_count G1) = length (vertex G1)"
    "vertex_count G1 = int (length (vertex G1))" "vertex_count G2 = int (length (vertex G1))"
    using assms by (simp_all add: wf_graph_def)
  have nth: "replicate (length (vertex G1)) (- 1 :: int) ! nat i = - 1"
    if "i \<in> {0..<int (length (vertex G1))}" for i
    using that by (intro nth_replicate) auto
  show ?thesis
    unfolding state_inv_def newState_def vertices_of_def len
    using nth by auto
qed

lemma wf_fan: "wf_graph fan1" "wf_graph fan2"
  using wf_build[OF wf_initial fan1_built] wf_build[OF wf_initial fan2_built] by simp_all

section \<open>The search never runs forever\<close>

lemma no_div_Inr [simp]: "no_div (Inr x)"
  by (simp add: no_div_def)

lemma no_div_Inl [simp]: "no_div (Inl e) \<longleftrightarrow> e \<noteq> Diverges"
  by (simp add: no_div_def)

lemma no_div_bnd: "no_div m \<Longrightarrow> (\<And>x. m = Inr x \<Longrightarrow> no_div (f x)) \<Longrightarrow> no_div (bnd m f)"
  by (cases m) auto

lemma no_div_at [simp]: "no_div (at xs i)"
  by (simp add: at_def)

lemma no_div_upd [simp]: "no_div (upd xs i x)"
  by (simp add: upd_def)

lemma no_div_andalso: "no_div a \<Longrightarrow> no_div b \<Longrightarrow> no_div (andalso a b)"
  unfolding andalso_def by (rule no_div_bnd) auto

lemma no_div_scan_down [simp]: "no_div (scan_down c k)"
  by (induction k) (auto intro!: no_div_bnd)

lemma no_div_unmapped_pairs [simp]: "no_div (unmapped_pairs c m vs)"
  by (induction vs) (auto intro!: no_div_bnd)

lemma no_div_add_unmapped [simp]: "no_div (add_unmapped c acc us)"
  by (induction us arbitrary: acc) (auto intro!: no_div_bnd)

lemma no_div_genComplementary [simp]: "no_div (genComplementary vs core ins outs)"
  by (induction vs) (auto intro!: no_div_bnd)

lemma no_div_mapped_back [simp]: "no_div (mapped_back c2 adj1 n vs)"
  by (induction vs) (auto intro!: no_div_bnd)

lemma no_div_genCandiPairSet [simp]: "no_div (genCandiPairSet s)"
  unfolding genCandiPairSet_def by (auto intro!: no_div_bnd)

lemma no_div_addNewPair [simp]: "no_div (addNewPair s n m p1 p2 s1 s2)"
  unfolding addNewPair_def by (intro no_div_bnd) simp_all

lemma no_div_checkSemRules [simp]: "no_div (checkSemRules s G1 G2 n m)"
  unfolding checkSemRules_def by (intro no_div_bnd) simp_all

lemma no_div_checkInRule [simp]: "no_div (checkInRule s G1 G2 n m)"
  unfolding checkInRule_def Let_def by (intro no_div_bnd) (auto intro!: no_div_bnd)

lemma no_div_checkOutRule [simp]: "no_div (checkOutRule s G1 G2 n m)"
  unfolding checkOutRule_def Let_def by (intro no_div_bnd) (auto intro!: no_div_bnd)

lemma no_div_checkNewRule [simp]: "no_div (checkNewRule s G1 G2 n m)"
  unfolding checkNewRule_def Let_def by (intro no_div_bnd) (auto intro!: no_div_bnd)

lemma no_div_find_edge:
  assumes "dec_links es link" "- 1 \<le> h" "h < int (length es)" "h + 2 \<le> int fuel"
  shows "no_div (find_edge endp link fuel es h mv l)"
  using find_edge_total[OF assms, of endp mv l] by auto

lemma at_head_range:
  assumes "wf_links es heads link" "at heads m = Inr h"
  shows "- 1 \<le> h \<and> h < int (length es)"
  using assms wf_links_head[of es heads link m] by (auto simp: at_eq_Inr)

lemma no_div_edges_ok:
  assumes d1: "dec_links es1 link" and w2: "wf_links es2 heads2 link"
  shows "- 1 \<le> eid \<Longrightarrow> eid < int (length es1) \<Longrightarrow> eid + 2 \<le> int fuel \<Longrightarrow>
         no_div (edges_ok endp link fuel es1 c1 es2 heads2 m eid)"
proof (induction fuel arbitrary: eid)
  case 0
  then show ?case by simp
next
  case (Suc k)
  show ?case
  proof (cases "eid = - 1")
    case True
    then show ?thesis by simp
  next
    case False
    with Suc.prems have r: "in_range es1 eid" by (simp add: in_range_def)
    let ?e = "es1 ! nat eid"
    have e: "at es1 eid = Inr ?e" using r by (rule at_Inr_I)
    have rec: "no_div (edges_ok endp link k es1 c1 es2 heads2 m (link ?e))"
      using dec_links_step[OF d1 r] Suc.prems by (intro Suc.IH) auto
    have fe: "no_div (find_edge endp link (Suc (length es2)) es2 h2 mv l)"
      if "at heads2 m = Inr h2" for h2 mv l
      using at_head_range[OF w2 that] by (intro no_div_find_edge[OF wf_links_dec[OF w2]]) simp_all
    have "no_div (bnd (at c1 (endp ?e)) (\<lambda>map_vid.
             if map_vid = NULL_VIndex then edges_ok endp link k es1 c1 es2 heads2 m (link ?e)
             else bnd (at heads2 m) (\<lambda>h2.
                  bnd (find_edge endp link (Suc (length es2)) es2 h2 map_vid (edge_label ?e))
                    (\<lambda>flag.
                    if \<not> flag then Inr False
                    else edges_ok endp link k es1 c1 es2 heads2 m (link ?e)))))"
      using rec fe by (auto intro!: no_div_bnd simp del: find_edge.simps)
    then show ?thesis using False e by (simp del: find_edge.simps)
  qed
qed

lemma no_div_checkPredRule:
  assumes "wf_graph G1" "wf_graph G2"
  shows "no_div (checkPredRule s G1 G2 n m)"
proof -
  have l1: "wf_links (edge G1) (head_edge G1) edge_next"
    and l2: "wf_links (edge G2) (head_edge G2) edge_next"
    using assms by (simp_all add: wf_graph_def)
  have "no_div (edges_ok edge_v edge_next (Suc (length (edge G1))) (edge G1) (core_1 s)
            (edge G2) (head_edge G2) m h1)" if "at (head_edge G1) n = Inr h1" for h1
    using at_head_range[OF l1 that] by (intro no_div_edges_ok[OF wf_links_dec[OF l1] l2]) simp_all
  then show ?thesis
    unfolding checkPredRule_def by (auto intro!: no_div_bnd simp del: edges_ok.simps)
qed

lemma no_div_checkSuccRule:
  assumes "wf_graph G1" "wf_graph G2"
  shows "no_div (checkSuccRule s G1 G2 n m)"
proof -
  have l1: "wf_links (edge G1) (rev_head_edge G1) edge_prev"
    and l2: "wf_links (edge G2) (rev_head_edge G2) edge_prev"
    using assms by (simp_all add: wf_graph_def)
  have "no_div (edges_ok edge_u edge_prev (Suc (length (edge G1))) (edge G1) (core_1 s)
            (edge G2) (rev_head_edge G2) m h1)" if "at (rev_head_edge G1) n = Inr h1" for h1
    using at_head_range[OF l1 that] by (intro no_div_edges_ok[OF wf_links_dec[OF l1] l2]) simp_all
  then show ?thesis
    unfolding checkSuccRule_def by (auto intro!: no_div_bnd simp del: edges_ok.simps)
qed

lemma no_div_checkSynRules:
  assumes "wf_graph G1" "wf_graph G2"
  shows "no_div (checkSynRules s G1 G2 n m)"
  unfolding checkSynRules_def
  by (intro no_div_andalso no_div_checkPredRule[OF assms] no_div_checkSuccRule[OF assms]) simp_all

lemma no_div_first_success:
  "(\<And>p. p \<in> set P \<Longrightarrow> no_div (f p)) \<Longrightarrow> no_div (first_success f P)"
  by (induction P) (auto intro!: no_div_bnd)

lemma solve_unfold:
  "solve G1 G2 s =
     (if int (card (M1 s)) = s_vertex_count s then Inr True
      else bnd (genCandiPairSet s) (first_success (attempt G1 G2 s)))"
proof -
  have "attempt G1 G2 s = (\<lambda>(n, m).
          bnd (andalso (checkSemRules s G1 G2 n m) (checkSynRules s G1 G2 n m)) (\<lambda>ok.
            if ok then
              bnd (at (pred G1) n) (\<lambda>p1.
              bnd (at (pred G2) m) (\<lambda>p2.
              bnd (at (succ G1) n) (\<lambda>s1.
              bnd (at (succ G2) m) (\<lambda>s2.
              bnd (addNewPair s n m p1 p2 s1 s2) (\<lambda>new_state.
                solve G1 G2 new_state)))))
            else Inr False))"
    by (rule ext) (simp add: attempt_def)
  then show ?thesis by (subst solve.simps) simp
qed

lemma no_div_solve:
  assumes w1: "wf_graph G1" and w2: "wf_graph G2"
  shows "no_div (solve G1 G2 s)"
  using assms
proof (induction G1 G2 s rule: solve.induct)
  case (1 G1 G2 s)
  have "no_div (attempt G1 G2 s p)" if P: "genCandiPairSet s = Inr P" "p \<in> set P"
    and neq: "int (card (M1 s)) \<noteq> s_vertex_count s" for P p
  proof -
    obtain n m where p: "p = (n, m)" by (cases p)
    have rules: "no_div (andalso (checkSemRules s G1 G2 n m) (checkSynRules s G1 G2 n m))"
      using "1.prems" by (intro no_div_andalso no_div_checkSynRules) simp_all
    have rec: "no_div (solve G1 G2 s')"
      if "andalso (checkSemRules s G1 G2 n m) (checkSynRules s G1 G2 n m) = Inr True"
        "at (pred G1) n = Inr p1" "at (pred G2) m = Inr p2"
        "at (succ G1) n = Inr s1" "at (succ G2) m = Inr s2"
        "addNewPair s n m p1 p2 s1 s2 = Inr s'" for p1 p2 s1 s2 s'
      using "1.IH"[OF neq P(1) P(2) p[symmetric] that(1) _ that(2-6)] "1.prems" by simp
    show ?thesis
      unfolding attempt_def p prod.case
      by (rule no_div_bnd[OF rules]) (auto intro!: no_div_bnd rec)
  qed
  then show ?case
    unfolding solve_unfold[of G1 G2 s]
    by (auto intro!: no_div_bnd no_div_first_success)
qed

lemma reachable_sized:
  assumes "reachable G1 G2 sub s" "0 \<le> vertex_count G1"
  shows "int (length (core_1 s)) = vertex_count G1 \<and> length (core_2 s) = length (core_1 s) \<and>
         s_vertex_count s = vertex_count G1 \<and> s_subisomorphism s = sub"
  using assms
proof (induction rule: reachable.induct)
  case start
  then show ?case by (simp add: newState_def)
next
  case (extend s P n m p1 p2 s1 s2 s')
  from extend.hyps(10) have "length (core_1 s') = length (core_1 s)"
    "length (core_2 s') = length (core_2 s)" "s_vertex_count s' = s_vertex_count s"
    "s_subisomorphism s' = s_subisomorphism s"
    by (simp_all add: addNewPair_Inr)
  with extend.IH extend.prems show ?case by simp
qed

lemma card_mapped_unmapped: "card (mapped c) + card (unmapped c) = length c"
proof -
  have "mapped c \<union> unmapped c = {0..<int (length c)}"
    by (auto simp: mapped_def unmapped_def in_range_def)
  moreover have "mapped c \<inter> unmapped c = {}" by (auto simp: mapped_def unmapped_def)
  ultimately have "card (mapped c) + card (unmapped c) = card {0..<int (length c)}"
    by (metis card_Un_disjoint finite_mapped finite_unmapped)
  then show ?thesis by simp
qed

lemma mu_core_inv:
  assumes "core_inv s"
  shows "mu s + card (M1 s) = length (core_1 s)"
proof -
  have e: "{x \<in> in_1 s \<union> out_1 s. in_range (core_1 s) x \<and> core_1 s ! nat x \<noteq> NULL_VIndex} = {}"
    using assms by (auto simp: core_inv_def unmapped_def)
  have u: "{i. in_range (core_1 s) i \<and> core_1 s ! nat i = NULL_VIndex} = unmapped (core_1 s)"
    by (simp add: unmapped_def)
  have "mu s = card (unmapped (core_1 s))" unfolding mu_def e u by simp
  moreover have "M1 s = mapped (core_1 s)" using assms by (simp add: core_inv_def)
  ultimately show ?thesis using card_mapped_unmapped[of "core_1 s"] by simp
qed

lemma extension_grows_M1:
  assumes inv: "core_inv s" and gen: "genCandiPairSet s = Inr P" and mem: "(n, m) \<in> set P"
    and add: "addNewPair s n m p1 p2 s1 s2 = Inr s'"
  shows "card (M1 s') = Suc (card (M1 s))"
proof -
  from genCandi_fresh[OF inv gen mem] have "n \<in> unmapped (core_1 s)" by simp
  then have "n \<notin> M1 s" using inv by (simp add: core_inv_def mapped_def unmapped_def)
  moreover have "finite (M1 s)" using inv by (simp add: core_inv_def)
  moreover from add have "M1 s' = insert n (M1 s)" by (simp add: addNewPair_Inr)
  ultimately show ?thesis by simp
qed

section \<open>The search on two graphs of the same size returns an answer; a graph matches itself\<close>

lemma card_mapped_eq:
  assumes "core_inv s"
  shows "card (mapped (core_1 s)) = card (mapped (core_2 s))"
proof (rule bij_betw_same_card)
  let ?f = "\<lambda>n. core_1 s ! nat n"
  have inj: "inj_on ?f (mapped (core_1 s))"
    using assms by (intro inj_on_inverseI[where g="\<lambda>m. core_2 s ! nat m"]) (simp add: core_inv_def)
  have "?f ` mapped (core_1 s) = mapped (core_2 s)"
  proof
    show "?f ` mapped (core_1 s) \<subseteq> mapped (core_2 s)" using assms by (auto simp: core_inv_def)
    show "mapped (core_2 s) \<subseteq> ?f ` mapped (core_1 s)"
    proof
      fix y assume "y \<in> mapped (core_2 s)"
      with assms have "core_2 s ! nat y \<in> mapped (core_1 s)" "?f (core_2 s ! nat y) = y"
        by (auto simp: core_inv_def)
      then show "y \<in> ?f ` mapped (core_1 s)" by (metis imageI)
    qed
  qed
  with inj show "bij_betw ?f (mapped (core_1 s)) (mapped (core_2 s))" by (simp add: bij_betw_def)
qed

lemma scan_down_total: "k \<le> length c \<Longrightarrow> \<exists>r. scan_down c k = Inr r"
  by (induction k) (auto simp: at_def in_range_def)

lemma scan_down_finds:
  "k \<le> length c \<Longrightarrow> scan_down c k = Inr r \<Longrightarrow> i < k \<Longrightarrow> c ! i = - 1 \<Longrightarrow> r \<noteq> - 1"
proof (induction k)
  case 0
  then show ?case by simp
next
  case (Suc k)
  show ?case
  proof (cases "c ! k = - 1")
    case True
    with Suc.prems show ?thesis by (auto simp: at_def in_range_def)
  next
    case False
    with Suc.prems have "scan_down c k = Inr r" "i < k"
      by (auto simp: at_def in_range_def less_Suc_eq)
    with Suc show ?thesis by simp
  qed
qed

lemma exists_unmapped:
  assumes "card (mapped c) \<noteq> length c"
  shows "\<exists>i<length c. c ! i = - 1"
proof (rule ccontr)
  assume "\<not> ?thesis"
  then have "unmapped c = {}" by (auto simp: unmapped_def in_range_def)
  with card_mapped_unmapped[of c] assms show False by simp
qed

lemma genCandi_ok:
  assumes inv: "core_inv s" and l1: "int (length (core_1 s)) = s_vertex_count s"
    and l2: "length (core_2 s) = length (core_1 s)"
    and neq: "int (card (M1 s)) \<noteq> s_vertex_count s"
  shows "\<exists>P. genCandiPairSet s = Inr P \<and>
           (\<forall>(n, m)\<in>set P. n \<in> unmapped (core_1 s) \<and> m \<in> unmapped (core_2 s))"
proof -
  have ex: "\<exists>P. genCandiPairSet s = Inr P"
  proof -
    have "\<exists>r. scan_down (core_2 s) (nat (s_vertex_count s)) = Inr r"
      using l1 l2 by (intro scan_down_total) simp
    moreover have "\<exists>P. unmapped_pairs (core_1 s) r [0..s_vertex_count s - 1] = Inr P" for r
      using l1 by (auto simp: unmapped_pairs_Inr in_range_def)
    moreover have "0 \<le> s_vertex_count s" using l1 by simp
    ultimately show ?thesis unfolding genCandiPairSet_def by (auto simp: bnd_eq_Inr)
  qed
  then obtain P where P: "genCandiPairSet s = Inr P" ..
  have "n \<in> unmapped (core_1 s) \<and> m \<in> unmapped (core_2 s)" if mem: "(n, m) \<in> set P" for n m
  proof -
    from genCandi_fresh[OF inv P mem]
    have n: "n \<in> unmapped (core_1 s)" and m: "m = - 1 \<or> m \<in> unmapped (core_2 s)" by simp_all
    have "m \<noteq> - 1"
    proof (cases "(out_1 s \<noteq> {} \<and> out_2 s \<noteq> {}) \<or> (in_1 s \<noteq> {} \<and> in_2 s \<noteq> {})")
      case True
      have sub: "finite A \<and> (\<forall>a\<in>A. 0 \<le> a)" if "A \<subseteq> unmapped c" for A c
      proof
        show "finite A" using that by (rule finite_subset) simp
        show "\<forall>a\<in>A. 0 \<le> a" using that by (auto simp: unmapped_def in_range_def)
      qed
      from inv have o2: "out_2 s \<subseteq> unmapped (core_2 s)" and i2: "in_2 s \<subseteq> unmapped (core_2 s)"
        by (simp_all add: core_inv_def)
      from True P mem have "m = max_of (out_2 s) \<and> out_2 s \<noteq> {} \<or> m = max_of (in_2 s) \<and> in_2 s \<noteq> {}"
        by (auto simp: genCandiPairSet_def split: if_splits)
      then have "m \<in> out_2 s \<or> m \<in> in_2 s"
        using max_of_mem[of "out_2 s"] max_of_mem[of "in_2 s"] sub[OF o2] sub[OF i2] by auto
      then show ?thesis using sub[OF o2] sub[OF i2] by auto
    next
      case False
      with P obtain r where
        r: "scan_down (core_2 s) (nat (s_vertex_count s)) = Inr r"
        and up: "unmapped_pairs (core_1 s) r [0..s_vertex_count s - 1] = Inr P"
        using l1 by (auto simp: genCandiPairSet_def bnd_eq_Inr split: if_splits)
      from up mem have mr: "m = r" by (auto simp: unmapped_pairs_Inr)
      have "card (mapped (core_2 s)) \<noteq> length (core_2 s)"
        using card_mapped_eq[OF inv] inv neq l1 l2 by (simp add: core_inv_def)
      then obtain i where "i < length (core_2 s)" "core_2 s ! i = - 1"
        using exists_unmapped by blast
      then show ?thesis
        using scan_down_finds[of "nat (s_vertex_count s)" "core_2 s" r i] r l1 l2 mr by simp
    qed
    with n m show ?thesis by simp
  qed
  with P show ?thesis by blast
qed

lemma step_ok:
  assumes w1: "wf_graph G1" and w2: "wf_graph G2" and inv: "search_inv G1 G2 s"
    and n: "n \<in> unmapped (core_1 s)" and m: "m \<in> unmapped (core_2 s)"
  shows "\<exists>s'. addNewPair s n m (pred G1 ! nat n) (pred G2 ! nat m)
                 (succ G1 ! nat n) (succ G2 ! nat m) = Inr s' \<and> search_inv G1 G2 s'"
proof -
  from inv have f: "fits G1 G2 s" and ci: "core_inv s" by (simp_all add: search_inv_def)
  have V1: "\<And>i. in_range (vertex G1) i \<longleftrightarrow> in_range (core_1 s) i"
    and V2: "\<And>i. in_range (vertex G2) i \<longleftrightarrow> in_range (core_2 s) i"
    using f by (simp_all add: fits_def in_range_def)
  from n m have rn: "in_range (core_1 s) n" and rm: "in_range (core_2 s) m"
    by (simp_all add: unmapped_def)
  have adj: "\<forall>a\<in>pred G1 ! nat n. in_range (core_1 s) a" "\<forall>a\<in>pred G2 ! nat m. in_range (core_2 s) a"
    "\<forall>a\<in>succ G1 ! nat n. in_range (core_1 s) a" "\<forall>a\<in>succ G2 ! nat m. in_range (core_2 s) a"
    using wf_graph_adj[OF w1, of n] wf_graph_adj[OF w2, of m] rn rm by (simp_all add: V1 V2)
  have "\<exists>s'. addNewPair s n m (pred G1 ! nat n) (pred G2 ! nat m)
                 (succ G1 ! nat n) (succ G2 ! nat m) = Inr s'"
    unfolding addNewPair_Inr using rn rm adj set_sorted_list_subset by blast
  then obtain s' where add: "addNewPair s n m (pred G1 ! nat n) (pred G2 ! nat m)
                 (succ G1 ! nat n) (succ G2 ! nat m) = Inr s'" ..
  have "core_inv s'" by (rule core_inv_addNewPair[OF ci n m add])
  moreover from add have "length (core_1 s') = length (core_1 s)"
    "length (core_2 s') = length (core_2 s)" "s_vertex_count s' = s_vertex_count s"
    by (simp_all add: addNewPair_Inr)
  ultimately have "search_inv G1 G2 s'" using inv by (simp add: search_inv_def fits_def)
  with add show ?thesis by blast
qed

lemma search_inv_ranges:
  assumes "search_inv G1 G2 s"
  shows "n \<in> unmapped (core_1 s) \<Longrightarrow> in_range (vertex G1) n"
    and "m \<in> unmapped (core_2 s) \<Longrightarrow> in_range (vertex G2) m"
  using assms by (simp_all add: search_inv_def fits_def unmapped_def in_range_def)

lemma attempt_total:
  assumes w1: "wf_graph G1" and w2: "wf_graph G2" and inv: "search_inv G1 G2 s"
    and n: "n \<in> unmapped (core_1 s)" and m: "m \<in> unmapped (core_2 s)"
    and rec: "\<And>s'. andalso (checkSemRules s G1 G2 n m) (checkSynRules s G1 G2 n m) = Inr True \<Longrightarrow>
        addNewPair s n m (pred G1 ! nat n) (pred G2 ! nat m)
           (succ G1 ! nat n) (succ G2 ! nat m) = Inr s' \<Longrightarrow> \<exists>b. solve G1 G2 s' = Inr b"
  shows "\<exists>b. attempt G1 G2 s (n, m) = Inr b"
proof -
  note rn = search_inv_ranges(1)[OF inv n] search_inv_ranges(2)[OF inv m]
  from inv have f: "fits G1 G2 s" and M: "M2 s = mapped (core_2 s)"
    by (simp_all add: search_inv_def core_inv_def)
  have sem: "checkSemRules s G1 G2 n m = Inr (vertex G1 ! nat n = vertex G2 ! nat m)"
    by (rule checkSemRules_value[OF rn])
  obtain b where syn: "checkSynRules s G1 G2 n m = Inr b"
    using checkSynRules_total[OF w1 w2 f M rn] ..
  have ats: "at (pred G1) n = Inr (pred G1 ! nat n)" "at (pred G2) m = Inr (pred G2 ! nat m)"
    "at (succ G1) n = Inr (succ G1 ! nat n)" "at (succ G2) m = Inr (succ G2 ! nat m)"
    using rn wf_graph_ranges[OF w1] wf_graph_ranges[OF w2] by (simp_all add: at_def)
  obtain s' where add: "addNewPair s n m (pred G1 ! nat n) (pred G2 ! nat m)
                 (succ G1 ! nat n) (succ G2 ! nat m) = Inr s'"
    using step_ok[OF w1 w2 inv n m] by blast
  show ?thesis
  proof (cases "vertex G1 ! nat n = vertex G2 ! nat m \<and> b")
    case True
    then have ok: "andalso (checkSemRules s G1 G2 n m) (checkSynRules s G1 G2 n m) = Inr True"
      by (simp add: sem syn andalso_def)
    from rec[OF ok add] obtain r where "solve G1 G2 s' = Inr r" ..
    then show ?thesis unfolding attempt_def prod.case ok by (simp add: ats add)
  next
    case False
    then have "andalso (checkSemRules s G1 G2 n m) (checkSynRules s G1 G2 n m) = Inr False"
      by (auto simp: sem syn andalso_def)
    then show ?thesis unfolding attempt_def prod.case by auto
  qed
qed

lemma first_success_total:
  "(\<And>p. p \<in> set P \<Longrightarrow> \<exists>b. f p = Inr b) \<Longrightarrow> \<exists>b. first_success f P = Inr b"
proof (induction P)
  case Nil
  then show ?case by auto
next
  case (Cons p P)
  then obtain b where "f p = Inr b" by auto
  moreover from Cons obtain c where "first_success f P = Inr c" by auto
  ultimately show ?case by auto
qed

lemma first_success_True:
  "(\<And>p. p \<in> set P \<Longrightarrow> \<exists>b. f p = Inr b) \<Longrightarrow> q \<in> set P \<Longrightarrow> f q = Inr True \<Longrightarrow>
     first_success f P = Inr True"
proof (induction P)
  case Nil
  then show ?case by simp
next
  case (Cons p P)
  from Cons.prems(1) obtain b where b: "f p = Inr b" by auto
  show ?case
  proof (cases b)
    case True
    with b show ?thesis by simp
  next
    case False
    with b Cons.prems have "q \<in> set P" by auto
    with Cons have "first_success f P = Inr True" by auto
    with b show ?thesis by simp
  qed
qed

lemma solve_total:
  assumes "wf_graph G1" "wf_graph G2" "search_inv G1 G2 s"
  shows "\<exists>b. solve G1 G2 s = Inr b"
  using assms
proof (induction G1 G2 s rule: solve.induct)
  case (1 G1 G2 s)
  note w = "1.prems"(1,2) and inv = "1.prems"(3)
  show ?case
  proof (cases "int (card (M1 s)) = s_vertex_count s")
    case True
    then show ?thesis by (auto simp: solve_unfold)
  next
    case False
    from inv w have l: "int (length (core_1 s)) = s_vertex_count s"
      "length (core_2 s) = length (core_1 s)" and ci: "core_inv s"
      by (simp_all add: search_inv_def fits_def wf_graph_def)
    from genCandi_ok[OF ci l False] obtain P where P: "genCandiPairSet s = Inr P"
      and fresh: "\<forall>(n, m)\<in>set P. n \<in> unmapped (core_1 s) \<and> m \<in> unmapped (core_2 s)" by blast
    have "\<exists>b. attempt G1 G2 s p = Inr b" if p: "p \<in> set P" for p
    proof -
      obtain n m where nm: "p = (n, m)" by (cases p)
      with fresh p have n: "n \<in> unmapped (core_1 s)" and m: "m \<in> unmapped (core_2 s)" by auto
      note rn = search_inv_ranges(1)[OF inv n] search_inv_ranges(2)[OF inv m]
      have ats: "at (pred G1) n = Inr (pred G1 ! nat n)" "at (pred G2) m = Inr (pred G2 ! nat m)"
        "at (succ G1) n = Inr (succ G1 ! nat n)" "at (succ G2) m = Inr (succ G2 ! nat m)"
        using rn wf_graph_ranges[OF w(1)] wf_graph_ranges[OF w(2)] by (simp_all add: at_def)
      have "\<exists>b. solve G1 G2 s' = Inr b"
        if ok: "andalso (checkSemRules s G1 G2 n m) (checkSynRules s G1 G2 n m) = Inr True"
          and add: "addNewPair s n m (pred G1 ! nat n) (pred G2 ! nat m)
             (succ G1 ! nat n) (succ G2 ! nat m) = Inr s'" for s'
      proof -
        from step_ok[OF w inv n m] add have "search_inv G1 G2 s'" by simp
        then show ?thesis
          using "1.IH"[OF False P p nm[symmetric] ok _ ats add] w by simp
      qed
      then show ?thesis unfolding nm by (rule attempt_total[OF w inv n m])
    qed
    then have "\<exists>b. first_success (attempt G1 G2 s) P = Inr b" by (rule first_success_total)
    then show ?thesis using False P by (simp add: solve_unfold)
  qed
qed

lemma same_candidate:
  assumes same: "same_state G s" and w: "wf_graph G"
    and neq: "int (card (M1 s)) \<noteq> s_vertex_count s"
    and gen: "genCandiPairSet s = Inr P"
  shows "\<exists>k. (k, k) \<in> set P"
proof -
  from same have inv: "search_inv G G s" and ci: "core_inv s"
    and eq: "core_2 s = core_1 s" "in_2 s = in_1 s" "out_2 s = out_1 s"
    by (simp_all add: same_state_def search_inv_def)
  from inv w have l: "int (length (core_1 s)) = s_vertex_count s"
    "length (core_2 s) = length (core_1 s)"
    by (simp_all add: search_inv_def fits_def wf_graph_def)
  have sub: "finite A \<and> (\<forall>a\<in>A. 0 \<le> a)" if "A \<subseteq> unmapped c" for A c
  proof
    show "finite A" using that by (rule finite_subset) simp
    show "\<forall>a\<in>A. 0 \<le> a" using that by (auto simp: unmapped_def in_range_def)
  qed
  from ci have o1: "out_1 s \<subseteq> unmapped (core_1 s)" and i1: "in_1 s \<subseteq> unmapped (core_1 s)"
    by (simp_all add: core_inv_def)
  consider (out) "out_1 s \<noteq> {}" | (inn) "out_1 s = {}" "in_1 s \<noteq> {}"
    | (all) "out_1 s = {}" "in_1 s = {}" by blast
  then show ?thesis
  proof cases
    case out
    then have "max_of (out_1 s) \<in> out_1 s" using sub[OF o1] by (intro max_of_mem) auto
    moreover have "P = map (\<lambda>vid1. (vid1, max_of (out_1 s))) (sorted_list_of_set (out_1 s))"
      using gen out by (simp add: genCandiPairSet_def eq)
    ultimately show ?thesis using sub[OF o1] by (auto intro!: exI[of _ "max_of (out_1 s)"])
  next
    case inn
    then have "max_of (in_1 s) \<in> in_1 s" using sub[OF i1] by (intro max_of_mem) auto
    moreover have "P = map (\<lambda>vid1. (vid1, max_of (in_1 s))) (sorted_list_of_set (in_1 s))"
      using gen inn by (simp add: genCandiPairSet_def eq)
    ultimately show ?thesis using sub[OF i1] by (auto intro!: exI[of _ "max_of (in_1 s)"])
  next
    case all
    with gen obtain r where
      r: "scan_down (core_1 s) (nat (s_vertex_count s)) = Inr r"
      and up: "unmapped_pairs (core_1 s) r [0..s_vertex_count s - 1] = Inr P"
      using l by (auto simp: genCandiPairSet_def bnd_eq_Inr eq split: if_splits)
    have "card (mapped (core_1 s)) \<noteq> length (core_1 s)"
      using ci neq l by (simp add: core_inv_def)
    then obtain i where "i < length (core_1 s)" "core_1 s ! i = - 1"
      using exists_unmapped by blast
    then have "r \<noteq> - 1"
      using scan_down_finds[of "nat (s_vertex_count s)" "core_1 s" r i] r l by simp
    with scan_down_Inr[OF r] have "r \<in> unmapped (core_1 s)" by simp
    then have "r \<in> set [0..s_vertex_count s - 1]" "core_1 s ! nat r = - 1"
      using l by (auto simp: unmapped_def in_range_def)
    with up have "(r, r) \<in> set P" by (auto simp: unmapped_pairs_Inr)
    then show ?thesis ..
  qed
qed

lemma checkInRule_same:
  assumes "in_2 s = in_1 s" "in_range (pred G) k" "in_range (succ G) k"
  shows "checkInRule s G G k k = Inr True"
  using assms by (simp add: checkInRule_def at_def Let_def)

lemma checkOutRule_same:
  assumes "out_2 s = out_1 s" "in_range (pred G) k" "in_range (succ G) k"
  shows "checkOutRule s G G k k = Inr True"
  using assms by (simp add: checkOutRule_def at_def Let_def)

lemma checkNewRule_same:
  assumes "core_2 s = core_1 s" "in_2 s = in_1 s" "out_2 s = out_1 s"
    "int (length (core_1 s)) = vertex_count G" "in_range (pred G) k" "in_range (succ G) k"
  shows "checkNewRule s G G k k = Inr True"
  unfolding checkNewRule_def using assms
  by (simp add: genComplementary_total at_def Let_def)

lemma checkPredRule_same:
  assumes w: "wf_graph G" and same: "same_state G s" and k: "in_range (vertex G) k"
  shows "checkPredRule s G G k k = Inr True"
proof -
  let ?h = "head_edge G ! nat k"
  from same have f: "fits G G s" and M: "M2 s = mapped (core_1 s)"
    and eq: "core_2 s = core_1 s"
    and idem: "\<forall>i\<in>mapped (core_1 s). core_1 s ! nat i = i"
    by (auto simp: same_state_def search_inv_def core_inv_def)
  have kh: "in_range (head_edge G) k" and kp: "in_range (pred G) k"
    using k wf_graph_ranges[OF w] by simp_all
  have h: "at (head_edge G) k = Inr ?h" using kh by (rule at_Inr_I)
  have l: "wf_links (edge G) (head_edge G) edge_next" using w by (simp add: wf_graph_def)
  have hr: "- 1 \<le> ?h \<and> ?h < int (length (edge G))" by (rule wf_links_head[OF l kh])
  have ends: "\<forall>e\<in>set (edge G). in_range (core_1 s) (edge_v e)"
    using wf_graph_ends[OF w] f by (simp add: fits_def in_range_def)
  have id': "\<forall>i. in_range (core_1 s) i \<longrightarrow> core_1 s ! nat i = - 1 \<or> core_1 s ! nat i = i"
    using idem by (auto simp: mapped_def)
  have "?h = - 1 \<or> on_chain edge_next (edge G) ?h ?h"
    using hr by (auto intro!: on_chain.here simp: in_range_def)
  then have ok: "edges_ok edge_v edge_next (Suc (length (edge G))) (edge G) (core_1 s)
            (edge G) (head_edge G) k ?h = Inr True"
    using hr by (intro edges_ok_same[OF l kh ends id']) simp_all
  have p: "at (pred G) k = Inr (pred G ! nat k)" using kp by (rule at_Inr_I)
  have vs: "\<forall>v\<in>set (sorted_list_of_set (M2 s \<inter> pred G ! nat k)). v \<in> mapped (core_1 s)"
    using set_sorted_list_subset[of "M2 s \<inter> pred G ! nat k"] M by auto
  have "mapped_back (core_1 s) (pred G) k (sorted_list_of_set (M2 s \<inter> pred G ! nat k))
      = Inr (\<forall>v\<in>set (sorted_list_of_set (M2 s \<inter> pred G ! nat k)).
               core_1 s ! nat v \<in> pred G ! nat k)"
    using vs kp by (intro mapped_back_value) simp_all
  moreover have "\<forall>v\<in>set (sorted_list_of_set (M2 s \<inter> pred G ! nat k)).
               core_1 s ! nat v \<in> pred G ! nat k"
    using set_sorted_list_subset[of "M2 s \<inter> pred G ! nat k"] M idem by auto
  ultimately show ?thesis
    unfolding checkPredRule_def using h ok p by (simp add: eq del: edges_ok.simps)
qed

lemma checkSuccRule_same:
  assumes w: "wf_graph G" and same: "same_state G s" and k: "in_range (vertex G) k"
  shows "checkSuccRule s G G k k = Inr True"
proof -
  let ?h = "rev_head_edge G ! nat k"
  from same have f: "fits G G s" and M: "M2 s = mapped (core_1 s)"
    and eq: "core_2 s = core_1 s"
    and idem: "\<forall>i\<in>mapped (core_1 s). core_1 s ! nat i = i"
    by (auto simp: same_state_def search_inv_def core_inv_def)
  have kh: "in_range (rev_head_edge G) k" and kp: "in_range (succ G) k"
    using k wf_graph_ranges[OF w] by simp_all
  have h: "at (rev_head_edge G) k = Inr ?h" using kh by (rule at_Inr_I)
  have l: "wf_links (edge G) (rev_head_edge G) edge_prev" using w by (simp add: wf_graph_def)
  have hr: "- 1 \<le> ?h \<and> ?h < int (length (edge G))" by (rule wf_links_head[OF l kh])
  have ends: "\<forall>e\<in>set (edge G). in_range (core_1 s) (edge_u e)"
    using wf_graph_ends[OF w] f by (simp add: fits_def in_range_def)
  have id': "\<forall>i. in_range (core_1 s) i \<longrightarrow> core_1 s ! nat i = - 1 \<or> core_1 s ! nat i = i"
    using idem by (auto simp: mapped_def)
  have "?h = - 1 \<or> on_chain edge_prev (edge G) ?h ?h"
    using hr by (auto intro!: on_chain.here simp: in_range_def)
  then have ok: "edges_ok edge_u edge_prev (Suc (length (edge G))) (edge G) (core_1 s)
            (edge G) (rev_head_edge G) k ?h = Inr True"
    using hr by (intro edges_ok_same[OF l kh ends id']) simp_all
  have p: "at (succ G) k = Inr (succ G ! nat k)" using kp by (rule at_Inr_I)
  have vs: "\<forall>v\<in>set (sorted_list_of_set (M2 s \<inter> succ G ! nat k)). v \<in> mapped (core_1 s)"
    using set_sorted_list_subset[of "M2 s \<inter> succ G ! nat k"] M by auto
  have "mapped_back (core_1 s) (succ G) k (sorted_list_of_set (M2 s \<inter> succ G ! nat k))
      = Inr (\<forall>v\<in>set (sorted_list_of_set (M2 s \<inter> succ G ! nat k)).
               core_1 s ! nat v \<in> succ G ! nat k)"
    using vs kp by (intro mapped_back_value) simp_all
  moreover have "\<forall>v\<in>set (sorted_list_of_set (M2 s \<inter> succ G ! nat k)).
               core_1 s ! nat v \<in> succ G ! nat k"
    using set_sorted_list_subset[of "M2 s \<inter> succ G ! nat k"] M idem by auto
  ultimately show ?thesis
    unfolding checkSuccRule_def using h ok p by (simp add: eq del: edges_ok.simps)
qed

lemma rules_same:
  assumes w: "wf_graph G" and same: "same_state G s" and k: "k \<in> unmapped (core_1 s)"
  shows "andalso (checkSemRules s G G k k) (checkSynRules s G G k k) = Inr True"
proof -
  from same have inv: "search_inv G G s" and eq: "core_2 s = core_1 s" "in_2 s = in_1 s"
    "out_2 s = out_1 s" by (simp_all add: same_state_def)
  have kv: "in_range (vertex G) k" by (rule search_inv_ranges(1)[OF inv k])
  have kr: "in_range (pred G) k" "in_range (succ G) k" using kv wf_graph_ranges[OF w] by simp_all
  have len: "int (length (core_1 s)) = vertex_count G"
    using inv w by (simp add: search_inv_def fits_def wf_graph_def)
  show ?thesis
    unfolding checkSynRules_def
    by (simp add: andalso_def checkSemRules_value[OF kv kv]
        checkPredRule_same[OF w same kv] checkSuccRule_same[OF w same kv]
        checkInRule_same[OF eq(2) kr] checkOutRule_same[OF eq(3) kr]
        checkNewRule_same[OF eq len kr])
qed

lemma step_same:
  assumes w: "wf_graph G" and same: "same_state G s" and k: "k \<in> unmapped (core_1 s)"
    and add: "addNewPair s k k (pred G ! nat k) (pred G ! nat k)
                (succ G ! nat k) (succ G ! nat k) = Inr s'"
  shows "same_state G s'"
proof -
  from same have inv: "search_inv G G s" and eq: "core_2 s = core_1 s" "M2 s = M1 s"
    "in_2 s = in_1 s" "out_2 s = out_1 s"
    and idem: "\<forall>i\<in>mapped (core_1 s). core_1 s ! nat i = i"
    by (simp_all add: same_state_def)
  from k have k2: "k \<in> unmapped (core_2 s)" by (simp add: eq)
  from step_ok[OF w w inv k k2] add have inv': "search_inv G G s'" by simp
  from k have rk: "in_range (core_1 s) k" "k \<noteq> - 1" "0 \<le> k"
    by (auto simp: unmapped_def in_range_def)
  have c: "core_1 s' = (core_1 s)[nat k := k]" using add by (simp add: addNewPair_Inr)
  have "core_1 s' ! nat i = i" if "i \<in> mapped (core_1 s')" for i
  proof -
    from that have "i = k \<or> i \<in> mapped (core_1 s)"
      unfolding c using mapped_update[OF rk(1,2)] by simp
    then show ?thesis
    proof
      assume "i = k"
      then show ?thesis unfolding c using rk by (simp add: in_range_def)
    next
      assume i: "i \<in> mapped (core_1 s)"
      then have "0 \<le> i" by (simp add: mapped_def in_range_def)
      then have "core_1 s' ! nat i = (if i = k then k else core_1 s ! nat i)"
        unfolding c by (rule nth_update_int[OF rk(1)])
      with idem i show ?thesis by simp
    qed
  qed
  moreover from add have "core_2 s' = core_1 s'" "M2 s' = M1 s'" "in_2 s' = in_1 s'"
    "out_2 s' = out_1 s'"
    by (simp_all add: addNewPair_Inr eq)
  ultimately show ?thesis using inv' by (simp add: same_state_def)
qed

lemma solve_same:
  assumes "wf_graph G1" "G2 = G1" "same_state G1 s"
  shows "solve G1 G2 s = Inr True"
  using assms
proof (induction G1 G2 s rule: solve.induct)
  case (1 G1 G2 s)
  note w = "1.prems"(1) and G = "1.prems"(2) and same = "1.prems"(3)
  from same have inv: "search_inv G1 G1 s" by (simp add: same_state_def)
  show ?case
  proof (cases "int (card (M1 s)) = s_vertex_count s")
    case True
    then show ?thesis by (simp add: solve_unfold)
  next
    case False
    from inv w have l: "int (length (core_1 s)) = s_vertex_count s"
      "length (core_2 s) = length (core_1 s)" and ci: "core_inv s"
      by (simp_all add: search_inv_def fits_def wf_graph_def)
    from genCandi_ok[OF ci l False] obtain P where P: "genCandiPairSet s = Inr P"
      and fresh: "\<forall>(n, m)\<in>set P. n \<in> unmapped (core_1 s) \<and> m \<in> unmapped (core_2 s)" by blast
    have tot: "\<exists>b. attempt G1 G1 s p = Inr b" if p: "p \<in> set P" for p
    proof -
      obtain n m where nm: "p = (n, m)" by (cases p)
      with fresh p have n: "n \<in> unmapped (core_1 s)" and m: "m \<in> unmapped (core_2 s)" by auto
      have "\<exists>b. solve G1 G1 s' = Inr b"
        if "addNewPair s n m (pred G1 ! nat n) (pred G1 ! nat m)
             (succ G1 ! nat n) (succ G1 ! nat m) = Inr s'" for s'
        using step_ok[OF w w inv n m] that by (auto intro: solve_total[OF w w])
      then show ?thesis unfolding nm by (intro attempt_total[OF w w inv n m]) blast
    qed
    from same_candidate[OF same w False P] obtain k where k: "(k, k) \<in> set P" ..
    with fresh have ku: "k \<in> unmapped (core_1 s)" by auto
    have kv: "in_range (vertex G1) k" by (rule search_inv_ranges(1)[OF inv ku])
    have ats: "at (pred G1) k = Inr (pred G1 ! nat k)" "at (succ G1) k = Inr (succ G1 ! nat k)"
      using kv wf_graph_ranges[OF w] by (simp_all add: at_def)
    have ok: "andalso (checkSemRules s G1 G1 k k) (checkSynRules s G1 G1 k k) = Inr True"
      by (rule rules_same[OF w same ku])
    from fresh k have "k \<in> unmapped (core_2 s)" by auto
    from step_ok[OF w w inv ku this] obtain s' where
      add: "addNewPair s k k (pred G1 ! nat k) (pred G1 ! nat k)
              (succ G1 ! nat k) (succ G1 ! nat k) = Inr s'" by blast
    have same': "same_state G1 s'" by (rule step_same[OF w same ku add])
    have "solve G1 G1 s' = Inr True"
      using "1.IH"[OF False P k refl _ _ _ _ _ _ _ w _ same'] ok ats add G by simp
    then have "attempt G1 G1 s (k, k) = Inr True"
      unfolding attempt_def prod.case ok by (simp add: ats add)
    with tot k have "first_success (attempt G1 G1 s) P = Inr True"
      by (intro first_success_True[where q="(k, k)"]) auto
    then show ?thesis using False P G by (simp add: solve_unfold)
  qed
qed

lemma mapped_replicate: "mapped (replicate k (- 1)) = {}"
proof -
  have "replicate k (- 1 :: int) ! nat i = - 1" if "0 \<le> i" "i < int k" for i
    using that by (intro nth_replicate) auto
  then show ?thesis by (auto simp: mapped_def in_range_def)
qed

lemma same_state_newState:
  assumes "wf_graph G"
  shows "same_state G (newState (vertex_count G) sub)"
proof -
  have "core_inv (newState (vertex_count G) sub)" by (rule core_inv_newState)
  moreover have "mapped (core_1 (newState (vertex_count G) sub)) = {}"
    by (simp add: newState_def mapped_replicate)
  ultimately show ?thesis
    using assms by (simp add: same_state_def search_inv_def fits_def)
      (simp add: newState_def wf_graph_def)
qed

section \<open>The stack model agrees with the search driver\<close>

lemma attempt_pair:
  "attempt G1 G2 s (n, m) =
     bnd (andalso (checkSemRules s G1 G2 n m) (checkSynRules s G1 G2 n m)) (\<lambda>ok.
       if ok then
         bnd (at (pred G1) n) (\<lambda>p1.
         bnd (at (pred G2) m) (\<lambda>p2.
         bnd (at (succ G1) n) (\<lambda>s1.
         bnd (at (succ G2) m) (\<lambda>s2.
         bnd (addNewPair s n m p1 p2 s1 s2) (\<lambda>new_state.
           solve G1 G2 new_state)))))
       else Inr False)"
  by (simp add: attempt_def)

lemma try_frames_eq:
  assumes a: "a < length fs"
    and call: "\<And>n m p1 p2 s1 s2 s'. (n, m) \<in> set P \<Longrightarrow>
        addNewPair (fs ! a) n m p1 p2 s1 s2 = Inr s' \<Longrightarrow>
        call (fs @ [s']) (length fs) = Some (solve G1 G2 s', fs @ [s'])"
  shows "try_frames call G1 G2 a P fs = Some (first_success (attempt G1 G2 (fs ! a)) P, fs)"
  using call
proof (induction P)
  case Nil
  then show ?case by simp
next
  case (Cons p P)
  obtain n m where p: "p = (n, m)" by (cases p)
  have IH: "try_frames call G1 G2 a P fs = Some (first_success (attempt G1 G2 (fs ! a)) P, fs)"
    by (rule Cons.IH) (auto intro: Cons.prems)
  show ?case
  proof (cases "andalso (checkSemRules (fs ! a) G1 G2 n m) (checkSynRules (fs ! a) G1 G2 n m)")
    case (Inl e)
    then show ?thesis by (simp add: p attempt_pair)
  next
    case (Inr ok)
    show ?thesis
    proof (cases ok)
      case False
      with Inr IH show ?thesis by (simp add: p attempt_pair)
    next
      case True
      let ?add = "bnd (at (pred G1) n) (\<lambda>p1.
                  bnd (at (pred G2) m) (\<lambda>p2.
                  bnd (at (succ G1) n) (\<lambda>s1.
                  bnd (at (succ G2) m) (\<lambda>s2.
                    addNewPair (fs ! a) n m p1 p2 s1 s2))))"
      have clone: "(fs @ [fs ! a]) ! length fs = fs ! a" by simp
      have att: "attempt G1 G2 (fs ! a) (n, m) = bnd ?add (solve G1 G2)"
        unfolding attempt_pair Inr using True
        by (cases "at (pred G1) n"; cases "at (pred G2) m"; cases "at (succ G1) n";
            cases "at (succ G2) m") simp_all
      show ?thesis
      proof (cases ?add)
        case (Inl e)
        then show ?thesis using Inr True att by (simp add: p Let_def)
      next
        case add: (Inr s')
        then obtain p1 p2 s1 s2 where "addNewPair (fs ! a) n m p1 p2 s1 s2 = Inr s'"
          by (auto simp: bnd_eq_Inr)
        then have c: "call (fs @ [s']) (length fs) = Some (solve G1 G2 s', fs @ [s'])"
          by (intro Cons.prems) (simp_all add: p)
        have upd: "(fs @ [fs ! a])[length fs := s'] = fs @ [s']" by simp
        show ?thesis
        proof (cases "solve G1 G2 s'")
          case (Inl e)
          then show ?thesis using Inr True att add c by (simp add: p Let_def upd)
        next
          case r: (Inr r)
          then show ?thesis using Inr True att add c IH
            by (cases r) (simp_all add: p Let_def upd)
        qed
      qed
    qed
  qed
qed

section \<open>The search along an induced embedding\<close>

text \<open>
  Graphs made by \<open>build\<close> are exact.
\<close>

lemma nth_append_in: "in_range xs i \<Longrightarrow> (xs @ ys) ! nat i = xs ! nat i"
  by (simp add: nth_append in_range_nat)

lemma nth_update_self: "in_range xs a \<Longrightarrow> xs[nat a := v] ! nat a = v"
  by (simp add: in_range_nat)

lemma in_range_Nil [simp]: "\<not> in_range [] i"
  by (simp add: in_range_def)

lemma on_chain_cases:
  "on_chain link es h i \<longleftrightarrow> in_range es h \<and> (i = h \<or> on_chain link es (link (es ! nat h)) i)"
  by (subst on_chain.simps) auto

lemma on_chain_append:
  assumes d: "dec_links es link"
  shows "h < int (length es) \<Longrightarrow> on_chain link (es @ [e]) h i \<longleftrightarrow> on_chain link es h i"
proof
  assume h: "h < int (length es)" and oc: "on_chain link (es @ [e]) h i"
  from oc h show "on_chain link es h i"
  proof (induction rule: on_chain.induct)
    case (here h)
    then show ?case by (auto intro: on_chain.here simp: in_range_def)
  next
    case (step h i)
    then have r: "in_range es h" by (simp add: in_range_def)
    then have eq: "(es @ [e]) ! nat h = es ! nat h" by (rule nth_append_in)
    from dec_links_step[OF d r] step.prems have "link (es ! nat h) < int (length es)" by simp
    with step.IH eq have "on_chain link es (link (es ! nat h)) i" by simp
    with r show ?case by (rule on_chain.step)
  qed
next
  assume "on_chain link es h i"
  then show "on_chain link (es @ [e]) h i"
  proof (induction rule: on_chain.induct)
    case (here h)
    then show ?case by (auto intro: on_chain.here simp: in_range_def)
  next
    case (step h i)
    then have eq: "(es @ [e]) ! nat h = es ! nat h" by (intro nth_append_in) simp
    from step.hyps(1) have "in_range (es @ [e]) h" by (simp add: in_range_def)
    then show ?case using step.IH eq by (auto intro: on_chain.step)
  qed
qed

lemma on_chain_null: "\<not> on_chain link es (- 1) i"
  by (subst on_chain_cases) (simp add: in_range_def)

lemma exact_links_snoc:
  assumes ex: "exact_links es heads link src" and w: "wf_links es heads link"
    and a: "in_range heads a" and l: "link e = heads ! nat a" and s: "src e = a"
  shows "exact_links (es @ [e]) (heads[nat a := int (length es)]) link src"
  unfolding exact_links_def
proof (intro allI impI)
  fix c i
  let ?es = "es @ [e]" and ?k = "int (length es)"
  assume "in_range (heads[nat a := ?k]) c"
  then have c: "in_range heads c" by simp
  have d: "dec_links es link" using w by (rule wf_links_dec)
  have old: "on_chain link ?es (heads ! nat c) i \<longleftrightarrow> in_range es i \<and> src (es ! nat i) = c"
    if "in_range heads c" for c
    using ex that wf_links_head[OF w that] on_chain_append[OF d, of "heads ! nat c" e i]
    by (simp add: exact_links_def)
  have nth: "?es ! nat i = (if i = ?k then e else es ! nat i)" if "in_range ?es i"
    using that by (auto simp: nth_append in_range_def)
  have rng: "in_range ?es i \<longleftrightarrow> in_range es i \<or> i = ?k" by (auto simp: in_range_def)
  show "on_chain link ?es (heads[nat a := ?k] ! nat c) i
        \<longleftrightarrow> in_range ?es i \<and> src (?es ! nat i) = c"
  proof (cases "c = a")
    case True
    have "heads[nat a := ?k] ! nat c = ?k" using True a by (simp add: nth_update_self)
    moreover have "on_chain link ?es ?k i \<longleftrightarrow> i = ?k \<or> on_chain link ?es (heads ! nat a) i"
      by (subst on_chain_cases) (simp add: in_range_def l)
    moreover have "in_range es i \<Longrightarrow> i \<noteq> ?k" by (simp add: in_range_def)
    ultimately show ?thesis using old[OF a] True s by (auto simp: rng nth)
  next
    case False
    have "nat c \<noteq> nat a" using False a c by (auto simp: in_range_def)
    then have "heads[nat a := ?k] ! nat c = heads ! nat c" by simp
    moreover have "in_range es i \<Longrightarrow> i \<noteq> ?k" by (simp add: in_range_def)
    ultimately show ?thesis using old[OF c] False s by (auto simp: rng nth)
  qed
qed

lemma exact_links_vertex:
  assumes ex: "exact_links es heads link src"
    and ends: "\<forall>e\<in>set es. src e < int (length heads)"
  shows "exact_links es (heads @ [- 1]) link src"
  unfolding exact_links_def
proof (intro allI impI)
  fix c i
  assume c: "in_range (heads @ [- 1]) c"
  show "on_chain link es ((heads @ [- 1]) ! nat c) i \<longleftrightarrow> in_range es i \<and> src (es ! nat i) = c"
  proof (cases "c = int (length heads)")
    case True
    then have "(heads @ [- 1]) ! nat c = - 1" by simp
    moreover have "src (es ! nat i) \<noteq> c" if "in_range es i"
      using ends in_range_nth_mem[OF that] True by auto
    ultimately show ?thesis by (auto simp: on_chain_null)
  next
    case False
    with c have r: "in_range heads c" by (auto simp: in_range_def)
    then have "(heads @ [- 1]) ! nat c = heads ! nat c" by (rule nth_append_in)
    with ex r show ?thesis by (simp add: exact_links_def)
  qed
qed

lemma exact_adj_vertex:
  assumes "exact_adj adj R" "\<forall>(a, b)\<in>R. b < int (length adj)"
  shows "exact_adj (adj @ [{}]) R"
  unfolding exact_adj_def
proof (intro allI impI)
  fix b assume b: "in_range (adj @ [{}]) b"
  show "(adj @ [{}]) ! nat b = {a. (a, b) \<in> R}"
  proof (cases "b = int (length adj)")
    case True
    then show ?thesis using assms(2) by auto
  next
    case False
    with b have r: "in_range adj b" by (auto simp: in_range_def)
    then have "(adj @ [{}]) ! nat b = adj ! nat b" by (rule nth_append_in)
    with assms(1) r show ?thesis by (simp add: exact_adj_def)
  qed
qed

lemma exact_adj_insert:
  assumes "exact_adj adj R" "in_range adj b"
  shows "exact_adj (adj[nat b := insert a (adj ! nat b)]) (insert (a, b) R)"
  unfolding exact_adj_def
proof (intro allI impI)
  fix c assume "in_range (adj[nat b := insert a (adj ! nat b)]) c"
  then have c: "in_range adj c" by simp
  then have "0 \<le> c" by (simp add: in_range_def)
  from nth_update_int[OF assms(2) this, of "insert a (adj ! nat b)"] assms(1) c assms(2)
  show "adj[nat b := insert a (adj ! nat b)] ! nat c = {x. (x, c) \<in> insert (a, b) R}"
    by (auto simp: exact_adj_def)
qed

lemma exact_initial: "exact_graph initial"
  by (simp add: exact_graph_def exact_links_def exact_adj_def initial_def)

lemma edges_of_addVertex [simp]: "edges_of (addVertex g l) = edges_of g"
  by (simp add: edges_of_def addVertex_def)

lemma exact_addVertex:
  assumes w: "wf_graph g" and ex: "exact_graph g"
  shows "exact_graph (addVertex g l)"
proof -
  have ends: "\<forall>e\<in>set (edge g). edge_u e < int (length (head_edge g))"
    "\<forall>e\<in>set (edge g). edge_v e < int (length (rev_head_edge g))"
    using w by (auto simp: wf_graph_def wf_ends_def)
  have adj: "\<forall>(a, b)\<in>{(a, b). \<exists>l. (a, b, l) \<in> edges_of g}. b < int (length (pred g))"
    "\<forall>(b, a)\<in>{(b, a). \<exists>l. (a, b, l) \<in> edges_of g}. a < int (length (succ g))"
    using w by (auto simp: wf_graph_def wf_ends_def wf_adj_def edges_of_def)
  show ?thesis
    using ex exact_links_vertex[OF _ ends(1)] exact_links_vertex[OF _ ends(2)]
      exact_adj_vertex[OF _ adj(1)] exact_adj_vertex[OF _ adj(2)]
    by (simp add: exact_graph_def) (simp add: addVertex_def)
qed

lemma exact_addEdge:
  assumes w: "wf_graph g" and ex: "exact_graph g" and add: "addEdge g a b l = Inr g'"
  shows "exact_graph g'"
proof -
  let ?e = "\<lparr>edge_u = a, edge_v = b, edge_label = l,
             edge_next = head_edge g ! nat a, edge_prev = rev_head_edge g ! nat b\<rparr>"
  from add have ra: "in_range (head_edge g) a" and rb: "in_range (rev_head_edge g) b"
    and pa: "in_range (pred g) b" and sa: "in_range (succ g) a"
    and g': "g' = g\<lparr>edge := edge g @ [?e],
              head_edge := (head_edge g)[nat a := edge_count g],
              rev_head_edge := (rev_head_edge g)[nat b := edge_count g],
              edge_count := edge_count g + 1,
              pred := (pred g)[nat b := insert a (pred g ! nat b)],
              succ := (succ g)[nat a := insert b (succ g ! nat a)]\<rparr>"
    by (auto simp: addEdge_def bnd_eq_Inr at_eq_Inr upd_eq_Inr)
  from w have ec: "edge_count g = int (length (edge g))"
    and l1: "wf_links (edge g) (head_edge g) edge_next"
    and l2: "wf_links (edge g) (rev_head_edge g) edge_prev"
    by (simp_all add: wf_graph_def)
  have E: "edges_of g' = insert (a, b, l) (edges_of g)" by (simp add: g' edges_of_def)
  have R1: "{(x, y). \<exists>l. (x, y, l) \<in> edges_of g'} = insert (a, b) {(x, y). \<exists>l. (x, y, l) \<in> edges_of g}"
    by (auto simp: E)
  have R2: "{(y, x). \<exists>l. (x, y, l) \<in> edges_of g'} = insert (b, a) {(y, x). \<exists>l. (x, y, l) \<in> edges_of g}"
    by (auto simp: E)
  have 1: "exact_links (edge g @ [?e]) ((head_edge g)[nat a := edge_count g]) edge_next edge_u"
    unfolding ec using ex l1 ra by (intro exact_links_snoc) (simp_all add: exact_graph_def)
  have 2: "exact_links (edge g @ [?e]) ((rev_head_edge g)[nat b := edge_count g]) edge_prev edge_v"
    unfolding ec using ex l2 rb by (intro exact_links_snoc) (simp_all add: exact_graph_def)
  have 3: "exact_adj ((pred g)[nat b := insert a (pred g ! nat b)])
             (insert (a, b) {(x, y). \<exists>l. (x, y, l) \<in> edges_of g})"
    using ex pa by (intro exact_adj_insert) (simp_all add: exact_graph_def)
  have 4: "exact_adj ((succ g)[nat a := insert b (succ g ! nat a)])
             (insert (b, a) {(y, x). \<exists>l. (x, y, l) \<in> edges_of g})"
    using ex sa by (intro exact_adj_insert) (simp_all add: exact_graph_def)
  show ?thesis
    unfolding exact_graph_def R1 R2 using 1 2 3 4 by (simp add: g')
qed

lemma exact_build:
  "wf_graph g \<Longrightarrow> exact_graph g \<Longrightarrow> build g cs = Inr g' \<Longrightarrow> exact_graph g'"
proof (induction g cs rule: build.induct)
  case (1 g)
  then show ?case by simp
next
  case (2 g l cs)
  then show ?case by (simp add: wf_addVertex exact_addVertex)
next
  case (3 g a b l cs)
  then show ?case by (auto simp: bnd_eq_Inr dest: wf_addEdge exact_addEdge)
qed

text \<open>
  For two graphs with the same number of vertices and an induced embedding \<open>\<phi>\<close>, a state
  that follows \<open>\<phi>\<close> passes every rule at a pair \<open>(n, \<phi> n)\<close>.
\<close>

lemma matched_bij:
  assumes "matched G1 G2 \<phi>"
  shows "bij_betw \<phi> (vertices_of G1) (vertices_of G2)"
proof -
  from assms have emb: "is_embedding G1 G2 \<phi>" and vc: "vertex_count G2 = vertex_count G1"
    by (simp_all add: matched_def)
  from vc have eq: "vertices_of G2 = vertices_of G1" by (simp add: vertices_of_def)
  from emb have inj: "inj_on \<phi> (vertices_of G1)" and sub: "\<phi> ` vertices_of G1 \<subseteq> vertices_of G1"
    by (simp_all add: is_embedding_def eq)
  have fin: "finite (vertices_of G1)" by (simp add: vertices_of_def)
  have "card (\<phi> ` vertices_of G1) = card (vertices_of G1)" using inj by (rule card_image)
  with fin sub have "\<phi> ` vertices_of G1 = vertices_of G1" by (intro card_subset_eq) simp_all
  with inj eq show ?thesis by (simp add: bij_betw_def)
qed

lemma edges_of_ends:
  assumes "wf_graph G" "(a, b, l) \<in> edges_of G"
  shows "a \<in> vertices_of G" "b \<in> vertices_of G"
  using assms wf_graph_ends[OF assms(1)] by (auto simp: edges_of_def vertices_of_wf)

lemma exact_pred:
  assumes "wf_graph G" "exact_graph G" "b \<in> vertices_of G"
  shows "pred G ! nat b = {a. \<exists>l. (a, b, l) \<in> edges_of G}"
  using assms wf_graph_ranges[OF assms(1)]
  by (simp add: exact_graph_def exact_adj_def vertices_of_wf)

lemma exact_succ:
  assumes "wf_graph G" "exact_graph G" "a \<in> vertices_of G"
  shows "succ G ! nat a = {b. \<exists>l. (a, b, l) \<in> edges_of G}"
  using assms wf_graph_ranges[OF assms(1)]
  by (simp add: exact_graph_def exact_adj_def vertices_of_wf)

lemma matched_pred:
  assumes m: "matched G1 G2 \<phi>" and v: "v \<in> vertices_of G1"
  shows "pred G2 ! nat (\<phi> v) = \<phi> ` (pred G1 ! nat v)"
proof -
  from m have w1: "wf_graph G1" and e1: "exact_graph G1" and w2: "wf_graph G2"
    and e2: "exact_graph G2" and emb: "is_embedding G1 G2 \<phi>" and ind: "induced G1 G2 \<phi>"
    by (simp_all add: matched_def)
  note bij = matched_bij[OF m]
  have pv: "\<phi> v \<in> vertices_of G2" using bij v by (auto simp: bij_betw_def)
  show ?thesis
  proof
    show "pred G2 ! nat (\<phi> v) \<subseteq> \<phi> ` (pred G1 ! nat v)"
    proof
      fix a assume "a \<in> pred G2 ! nat (\<phi> v)"
      then obtain l where l: "(a, \<phi> v, l) \<in> edges_of G2" by (auto simp: exact_pred[OF w2 e2 pv])
      then have "a \<in> vertices_of G2" by (rule edges_of_ends[OF w2])
      then obtain b where b: "b \<in> vertices_of G1" "a = \<phi> b"
        using bij by (auto simp: bij_betw_def)
      with ind v l obtain l' where "(b, v, l') \<in> edges_of G1" by (auto simp: induced_def)
      then have "b \<in> pred G1 ! nat v" by (auto simp: exact_pred[OF w1 e1 v])
      with b show "a \<in> \<phi> ` (pred G1 ! nat v)" by simp
    qed
    show "\<phi> ` (pred G1 ! nat v) \<subseteq> pred G2 ! nat (\<phi> v)"
      using emb by (auto simp: exact_pred[OF w1 e1 v] exact_pred[OF w2 e2 pv] is_embedding_def)
  qed
qed

lemma matched_succ:
  assumes m: "matched G1 G2 \<phi>" and v: "v \<in> vertices_of G1"
  shows "succ G2 ! nat (\<phi> v) = \<phi> ` (succ G1 ! nat v)"
proof -
  from m have w1: "wf_graph G1" and e1: "exact_graph G1" and w2: "wf_graph G2"
    and e2: "exact_graph G2" and emb: "is_embedding G1 G2 \<phi>" and ind: "induced G1 G2 \<phi>"
    by (simp_all add: matched_def)
  note bij = matched_bij[OF m]
  have pv: "\<phi> v \<in> vertices_of G2" using bij v by (auto simp: bij_betw_def)
  show ?thesis
  proof
    show "succ G2 ! nat (\<phi> v) \<subseteq> \<phi> ` (succ G1 ! nat v)"
    proof
      fix a assume "a \<in> succ G2 ! nat (\<phi> v)"
      then obtain l where l: "(\<phi> v, a, l) \<in> edges_of G2" by (auto simp: exact_succ[OF w2 e2 pv])
      then have "a \<in> vertices_of G2" by (rule edges_of_ends[OF w2])
      then obtain b where b: "b \<in> vertices_of G1" "a = \<phi> b"
        using bij by (auto simp: bij_betw_def)
      with ind v l obtain l' where "(v, b, l') \<in> edges_of G1" by (auto simp: induced_def)
      then have "b \<in> succ G1 ! nat v" by (auto simp: exact_succ[OF w1 e1 v])
      with b show "a \<in> \<phi> ` (succ G1 ! nat v)" by simp
    qed
    show "\<phi> ` (succ G1 ! nat v) \<subseteq> succ G2 ! nat (\<phi> v)"
      using emb by (auto simp: exact_succ[OF w1 e1 v] exact_succ[OF w2 e2 pv] is_embedding_def)
  qed
qed

lemma follows_vertices:
  assumes m: "matched G1 G2 \<phi>" and f: "follows G1 G2 \<phi> s"
  shows "vertices_of G1 = {i. in_range (core_1 s) i}" "vertices_of G2 = {i. in_range (core_2 s) i}"
  using assms
  by (auto simp: matched_def follows_def search_inv_def fits_def vertices_of_wf in_range_def)

lemma follows_mapped:
  assumes m: "matched G1 G2 \<phi>" and f: "follows G1 G2 \<phi> s"
  shows "mapped (core_2 s) = \<phi> ` mapped (core_1 s)"
    and "unmapped (core_2 s) = \<phi> ` unmapped (core_1 s)"
    and "\<forall>n\<in>mapped (core_1 s). core_2 s ! nat (\<phi> n) = n"
proof -
  from f have ci: "core_inv s" and fol: "\<forall>n\<in>mapped (core_1 s). core_1 s ! nat n = \<phi> n"
    by (simp_all add: follows_def search_inv_def)
  note V = follows_vertices[OF m f]
  note bij = matched_bij[OF m]
  show 1: "mapped (core_2 s) = \<phi> ` mapped (core_1 s)"
  proof
    show "mapped (core_2 s) \<subseteq> \<phi> ` mapped (core_1 s)"
    proof
      fix y assume "y \<in> mapped (core_2 s)"
      with ci have "core_2 s ! nat y \<in> mapped (core_1 s)" "core_1 s ! nat (core_2 s ! nat y) = y"
        by (auto simp: core_inv_def)
      with fol show "y \<in> \<phi> ` mapped (core_1 s)" by (metis imageI)
    qed
    show "\<phi> ` mapped (core_1 s) \<subseteq> mapped (core_2 s)"
      using ci fol by (auto simp: core_inv_def)
  qed
  have U1: "unmapped (core_1 s) = vertices_of G1 - mapped (core_1 s)"
    and U2: "unmapped (core_2 s) = vertices_of G2 - mapped (core_2 s)"
    by (auto simp: V mapped_def unmapped_def)
  have sub: "mapped (core_1 s) \<subseteq> vertices_of G1" by (auto simp: V mapped_def)
  have "\<phi> ` (vertices_of G1 - mapped (core_1 s)) = \<phi> ` vertices_of G1 - \<phi> ` mapped (core_1 s)"
    using bij sub by (intro inj_on_image_set_diff[of \<phi> "vertices_of G1"]) (auto simp: bij_betw_def)
  then show "unmapped (core_2 s) = \<phi> ` unmapped (core_1 s)"
    using bij by (simp add: U1 U2 1 bij_betw_def)
  show "\<forall>n\<in>mapped (core_1 s). core_2 s ! nat (\<phi> n) = n"
    using ci fol by (auto simp: core_inv_def)
qed

lemma card_image_Int:
  assumes "inj_on \<phi> D" "A \<subseteq> D" "B \<subseteq> D"
  shows "card (\<phi> ` A \<inter> \<phi> ` B) = card (A \<inter> B)"
proof -
  have "\<phi> ` A \<inter> \<phi> ` B = \<phi> ` (A \<inter> B)"
    using assms by (intro inj_on_image_Int[symmetric, of \<phi> D]) auto
  moreover have "inj_on \<phi> (A \<inter> B)" by (rule inj_on_subset[OF assms(1)]) (use assms in auto)
  ultimately show ?thesis by (simp add: card_image)
qed

lemma size_image_Int:
  assumes "inj_on \<phi> D" "A \<subseteq> D" "B \<subseteq> D" "finite A"
  shows "set_intersection_size (\<phi> ` A) (\<phi> ` B) = set_intersection_size A B"
  using assms by (simp add: set_intersection_size_card card_image_Int)

lemma follows_frontier_sub:
  assumes m: "matched G1 G2 \<phi>" and f: "follows G1 G2 \<phi> s"
  shows "in_1 s \<subseteq> vertices_of G1" "out_1 s \<subseteq> vertices_of G1"
    "finite (in_1 s)" "finite (out_1 s)"
proof -
  from f have i: "in_1 s \<subseteq> unmapped (core_1 s)" and o: "out_1 s \<subseteq> unmapped (core_1 s)"
    by (simp_all add: follows_def search_inv_def core_inv_def)
  have u: "unmapped (core_1 s) \<subseteq> vertices_of G1"
    by (auto simp: follows_vertices(1)[OF m f] unmapped_def)
  show "in_1 s \<subseteq> vertices_of G1" "out_1 s \<subseteq> vertices_of G1" using i o u by blast+
  show "finite (in_1 s)" by (rule finite_subset[OF i finite_unmapped])
  show "finite (out_1 s)" by (rule finite_subset[OF o finite_unmapped])
qed

lemma matched_adj_sub:
  assumes m: "matched G1 G2 \<phi>" and v: "v \<in> vertices_of G1"
  shows "pred G1 ! nat v \<subseteq> vertices_of G1" "succ G1 ! nat v \<subseteq> vertices_of G1"
    "finite (pred G1 ! nat v)" "finite (succ G1 ! nat v)"
proof -
  from m have w: "wf_graph G1" by (simp add: matched_def)
  from v have r: "in_range (vertex G1) v" by (simp add: vertices_of_wf[OF w])
  note a = wf_graph_adj[OF w r]
  show "pred G1 ! nat v \<subseteq> vertices_of G1" using a(1) by (auto simp: vertices_of_wf[OF w])
  show "succ G1 ! nat v \<subseteq> vertices_of G1" using a(2) by (auto simp: vertices_of_wf[OF w])
  show "finite (pred G1 ! nat v)" "finite (succ G1 ! nat v)" by (rule a(3) a(4))+
qed

lemma checkInRule_follows:
  assumes m: "matched G1 G2 \<phi>" and f: "follows G1 G2 \<phi> s" and n: "n \<in> vertices_of G1"
  shows "checkInRule s G1 G2 n (\<phi> n) = Inr True"
proof -
  note bij = matched_bij[OF m]
  from bij have inj: "inj_on \<phi> (vertices_of G1)" by (simp add: bij_betw_def)
  from bij n have pn: "\<phi> n \<in> vertices_of G2" by (auto simp: bij_betw_def)
  from m have w: "wf_graph G1" "wf_graph G2" by (simp_all add: matched_def)
  have r: "in_range (succ G1) n" "in_range (pred G1) n" "in_range (succ G2) (\<phi> n)"
    "in_range (pred G2) (\<phi> n)"
    using n pn wf_graph_ranges[OF w(1)] wf_graph_ranges[OF w(2)]
    by (simp_all add: vertices_of_wf[OF w(1)] vertices_of_wf[OF w(2)])
  from f have i2: "in_2 s = \<phi> ` in_1 s" by (simp add: follows_def)
  note fs = follows_frontier_sub[OF m f] and as = matched_adj_sub[OF m n]
  have "set_intersection_size (in_2 s) (succ G2 ! nat (\<phi> n))
      = set_intersection_size (in_1 s) (succ G1 ! nat n)"
    unfolding i2 matched_succ[OF m n] by (rule size_image_Int[OF inj fs(1) as(2) fs(3)])
  moreover have "set_intersection_size (in_2 s) (pred G2 ! nat (\<phi> n))
      = set_intersection_size (in_1 s) (pred G1 ! nat n)"
    unfolding i2 matched_pred[OF m n] by (rule size_image_Int[OF inj fs(1) as(1) fs(3)])
  ultimately show ?thesis using r by (simp add: checkInRule_def at_def Let_def)
qed

lemma checkOutRule_follows:
  assumes m: "matched G1 G2 \<phi>" and f: "follows G1 G2 \<phi> s" and n: "n \<in> vertices_of G1"
  shows "checkOutRule s G1 G2 n (\<phi> n) = Inr True"
proof -
  note bij = matched_bij[OF m]
  from bij have inj: "inj_on \<phi> (vertices_of G1)" by (simp add: bij_betw_def)
  from bij n have pn: "\<phi> n \<in> vertices_of G2" by (auto simp: bij_betw_def)
  from m have w: "wf_graph G1" "wf_graph G2" by (simp_all add: matched_def)
  have r: "in_range (succ G1) n" "in_range (pred G1) n" "in_range (succ G2) (\<phi> n)"
    "in_range (pred G2) (\<phi> n)"
    using n pn wf_graph_ranges[OF w(1)] wf_graph_ranges[OF w(2)]
    by (simp_all add: vertices_of_wf[OF w(1)] vertices_of_wf[OF w(2)])
  from f have i2: "out_2 s = \<phi> ` out_1 s" by (simp add: follows_def)
  note fs = follows_frontier_sub[OF m f] and as = matched_adj_sub[OF m n]
  have "set_intersection_size (out_2 s) (succ G2 ! nat (\<phi> n))
      = set_intersection_size (out_1 s) (succ G1 ! nat n)"
    unfolding i2 matched_succ[OF m n] by (rule size_image_Int[OF inj fs(2) as(2) fs(4)])
  moreover have "set_intersection_size (out_2 s) (pred G2 ! nat (\<phi> n))
      = set_intersection_size (out_1 s) (pred G1 ! nat n)"
    unfolding i2 matched_pred[OF m n] by (rule size_image_Int[OF inj fs(2) as(1) fs(4)])
  ultimately show ?thesis using r by (simp add: checkOutRule_def at_def Let_def)
qed

lemma checkNewRule_follows:
  assumes m: "matched G1 G2 \<phi>" and f: "follows G1 G2 \<phi> s" and n: "n \<in> vertices_of G1"
  shows "checkNewRule s G1 G2 n (\<phi> n) = Inr True"
proof -
  note bij = matched_bij[OF m]
  from bij have inj: "inj_on \<phi> (vertices_of G1)" by (simp add: bij_betw_def)
  from bij n have pn: "\<phi> n \<in> vertices_of G2" by (auto simp: bij_betw_def)
  from m have w: "wf_graph G1" "wf_graph G2" by (simp_all add: matched_def)
  have r: "in_range (succ G1) n" "in_range (pred G1) n" "in_range (succ G2) (\<phi> n)"
    "in_range (pred G2) (\<phi> n)"
    using n pn wf_graph_ranges[OF w(1)] wf_graph_ranges[OF w(2)]
    by (simp_all add: vertices_of_wf[OF w(1)] vertices_of_wf[OF w(2)])
  from f have i2: "in_2 s = \<phi> ` in_1 s" "out_2 s = \<phi> ` out_1 s"
    and fit: "fits G1 G2 s" by (simp_all add: follows_def search_inv_def)
  have len: "int (length (core_1 s)) = vertex_count G1" "int (length (core_2 s)) = vertex_count G2"
    using fit w by (simp_all add: fits_def wf_graph_def)
  note fs = follows_frontier_sub[OF m f] and as = matched_adj_sub[OF m n]
  note V = follows_vertices[OF m f]
  let ?N1 = "{v. in_range (core_1 s) v \<and> core_1 s ! nat v = NULL_VIndex \<and> v \<notin> in_1 s \<and> v \<notin> out_1 s}"
  let ?N2 = "{v. in_range (core_2 s) v \<and> core_2 s ! nat v = NULL_VIndex \<and> v \<notin> in_2 s \<and> v \<notin> out_2 s}"
  have N1: "?N1 = unmapped (core_1 s) - (in_1 s \<union> out_1 s)" by (auto simp: unmapped_def)
  have N2: "?N2 = unmapped (core_2 s) - (in_2 s \<union> out_2 s)" by (auto simp: unmapped_def)
  have U: "unmapped (core_1 s) \<subseteq> vertices_of G1" by (auto simp: V unmapped_def)
  have "\<phi> ` (unmapped (core_1 s) - (in_1 s \<union> out_1 s))
      = \<phi> ` unmapped (core_1 s) - \<phi> ` (in_1 s \<union> out_1 s)"
    using inj U fs(1,2) by (intro inj_on_image_set_diff[of \<phi> "vertices_of G1"]) auto
  moreover have "unmapped (core_2 s) - (in_2 s \<union> out_2 s)
      = \<phi> ` unmapped (core_1 s) - \<phi> ` (in_1 s \<union> out_1 s)"
    by (simp add: follows_mapped(2)[OF m f] i2 image_Un)
  ultimately have N: "?N2 = \<phi> ` ?N1" using N1 N2 by simp
  have Ns: "?N1 \<subseteq> vertices_of G1" by (auto simp: V)
  have "set_intersection_size (pred G2 ! nat (\<phi> n)) ?N2
      = set_intersection_size (pred G1 ! nat n) ?N1"
    unfolding N matched_pred[OF m n] by (rule size_image_Int[OF inj as(1) Ns as(3)])
  moreover have "set_intersection_size (succ G2 ! nat (\<phi> n)) ?N2
      = set_intersection_size (succ G1 ! nat n) ?N1"
    unfolding N matched_succ[OF m n] by (rule size_image_Int[OF inj as(2) Ns as(4)])
  ultimately show ?thesis
    unfolding checkNewRule_def genComplementary_total[OF len(1)] genComplementary_total[OF len(2)]
    using r by (simp add: at_def Let_def)
qed

lemma edges_ok_found:
  assumes d1: "dec_links es1 link" and w2: "wf_links es2 heads2 link" and m: "in_range heads2 m"
    and ends: "\<forall>e\<in>set es1. in_range c1 (endp e)"
    and found: "\<And>eid. on_chain link es1 h0 eid \<Longrightarrow> c1 ! nat (endp (es1 ! nat eid)) \<noteq> - 1 \<Longrightarrow>
        \<exists>j. on_chain link es2 (heads2 ! nat m) j \<and>
            endp (es2 ! nat j) = c1 ! nat (endp (es1 ! nat eid)) \<and>
            edge_label (es2 ! nat j) = edge_label (es1 ! nat eid)"
  shows "eid = - 1 \<or> on_chain link es1 h0 eid \<Longrightarrow> eid + 2 \<le> int fuel \<Longrightarrow>
         edges_ok endp link fuel es1 c1 es2 heads2 m eid = Inr True"
proof (induction fuel arbitrary: eid)
  case 0
  then show ?case by (auto dest: on_chain_in_range simp: in_range_def)
next
  case (Suc k)
  show ?case
  proof (cases "eid = - 1")
    case True
    then show ?thesis by simp
  next
    case False
    with Suc.prems have oc: "on_chain link es1 h0 eid" by simp
    then have r: "in_range es1 eid" by (rule on_chain_in_range)
    let ?e = "es1 ! nat eid"
    have e: "at es1 eid = Inr ?e" using r by (rule at_Inr_I)
    have cr: "in_range c1 (endp ?e)" using ends in_range_nth_mem[OF r] by simp
    then have c: "at c1 (endp ?e) = Inr (c1 ! nat (endp ?e))" by (rule at_Inr_I)
    have h: "at heads2 m = Inr (heads2 ! nat m)" using m by (rule at_Inr_I)
    have st: "- 1 \<le> link ?e \<and> link ?e < eid" using dec_links_step[OF d1 r] .
    then have "link ?e = - 1 \<or> in_range es1 (link ?e)" using r by (auto simp: in_range_def)
    then have "link ?e = - 1 \<or> on_chain link es1 h0 (link ?e)"
      using on_chain_next[OF oc] by auto
    then have rec: "edges_ok endp link k es1 c1 es2 heads2 m (link ?e) = Inr True"
      using st Suc.prems by (intro Suc.IH) auto
    show ?thesis
    proof (cases "c1 ! nat (endp ?e) = - 1")
      case True
      then show ?thesis using False e c rec by (simp del: find_edge.simps)
    next
      case nm: False
      from found[OF oc nm] obtain j where j: "on_chain link es2 (heads2 ! nat m) j"
        "endp (es2 ! nat j) = c1 ! nat (endp ?e)" "edge_label (es2 ! nat j) = edge_label ?e"
        by blast
      have "find_edge endp link (Suc (length es2)) es2 (heads2 ! nat m)
          (endp (es2 ! nat j)) (edge_label (es2 ! nat j)) = Inr True"
        using wf_links_head[OF w2 m] by (intro find_edge_finds[OF wf_links_dec[OF w2] j(1)]) simp
      then have f: "find_edge endp link (Suc (length es2)) es2 (heads2 ! nat m)
          (c1 ! nat (endp ?e)) (edge_label ?e) = Inr True" by (simp only: j)
      show ?thesis using False nm e c h rec f by (simp del: find_edge.simps)
    qed
  qed
qed

lemma edge_index:
  assumes "(a, b, l) \<in> edges_of G"
  shows "\<exists>j. in_range (edge G) j \<and> edge_u (edge G ! nat j) = a \<and>
             edge_v (edge G ! nat j) = b \<and> edge_label (edge G ! nat j) = l"
proof -
  from assms obtain e where "e \<in> set (edge G)" "edge_u e = a" "edge_v e = b" "edge_label e = l"
    by (auto simp: edges_of_def)
  then obtain i where "i < length (edge G)" "edge G ! i = e" by (auto simp: in_set_conv_nth)
  then have "in_range (edge G) (int i) \<and> edge G ! nat (int i) = e" by (simp add: in_range_def)
  then show ?thesis using \<open>edge_u e = a\<close> \<open>edge_v e = b\<close> \<open>edge_label e = l\<close> by blast
qed

lemma edge_member:
  assumes "in_range (edge G) j"
  shows "(edge_u (edge G ! nat j), edge_v (edge G ! nat j), edge_label (edge G ! nat j)) \<in> edges_of G"
  using in_range_nth_mem[OF assms] by (auto simp: edges_of_def)

lemma checkPredRule_follows:
  assumes m: "matched G1 G2 \<phi>" and f: "follows G1 G2 \<phi> s" and n: "n \<in> vertices_of G1"
  shows "checkPredRule s G1 G2 n (\<phi> n) = Inr True"
proof -
  note bij = matched_bij[OF m]
  from bij have inj: "inj_on \<phi> (vertices_of G1)" by (simp add: bij_betw_def)
  from bij n have pn: "\<phi> n \<in> vertices_of G2" by (auto simp: bij_betw_def)
  from m have w1: "wf_graph G1" and w2: "wf_graph G2" and e1: "exact_graph G1"
    and e2: "exact_graph G2" and emb: "is_embedding G1 G2 \<phi>" by (simp_all add: matched_def)
  from f have fit: "fits G1 G2 s" and M: "M2 s = mapped (core_2 s)"
    and fol: "\<forall>n\<in>mapped (core_1 s). core_1 s ! nat n = \<phi> n"
    by (simp_all add: follows_def search_inv_def core_inv_def)
  have rn: "in_range (vertex G1) n" and rp: "in_range (vertex G2) (\<phi> n)"
    using n pn by (simp_all add: vertices_of_wf[OF w1] vertices_of_wf[OF w2])
  have kh: "in_range (head_edge G1) n" and kp: "in_range (pred G1) n"
    and kh2: "in_range (head_edge G2) (\<phi> n)" and kp2: "in_range (pred G2) (\<phi> n)"
    using rn rp wf_graph_ranges[OF w1] wf_graph_ranges[OF w2] by simp_all
  let ?h = "head_edge G1 ! nat n"
  have h: "at (head_edge G1) n = Inr ?h" using kh by (rule at_Inr_I)
  have l1: "wf_links (edge G1) (head_edge G1) edge_next"
    and l2: "wf_links (edge G2) (head_edge G2) edge_next"
    using w1 w2 by (simp_all add: wf_graph_def)
  have x1: "exact_links (edge G1) (head_edge G1) edge_next edge_u"
    and x2: "exact_links (edge G2) (head_edge G2) edge_next edge_u"
    using e1 e2 by (simp_all add: exact_graph_def)
  have hr: "- 1 \<le> ?h \<and> ?h < int (length (edge G1))" by (rule wf_links_head[OF l1 kh])
  have ends: "\<forall>e\<in>set (edge G1). in_range (core_1 s) (edge_v e)"
    using wf_graph_ends[OF w1] fit by (simp add: fits_def in_range_def)
  have found: "\<exists>j. on_chain edge_next (edge G2) (head_edge G2 ! nat (\<phi> n)) j \<and>
            edge_v (edge G2 ! nat j) = core_1 s ! nat (edge_v (edge G1 ! nat eid)) \<and>
            edge_label (edge G2 ! nat j) = edge_label (edge G1 ! nat eid)"
    if oc: "on_chain edge_next (edge G1) ?h eid"
      and nm: "core_1 s ! nat (edge_v (edge G1 ! nat eid)) \<noteq> - 1" for eid
  proof -
    let ?e = "edge G1 ! nat eid"
    from x1 kh oc have r: "in_range (edge G1) eid" and u: "edge_u ?e = n"
      by (auto simp: exact_links_def)
    have "in_range (core_1 s) (edge_v ?e)" using ends in_range_nth_mem[OF r] by simp
    with nm have "edge_v ?e \<in> mapped (core_1 s)" by (simp add: mapped_def)
    with fol have c: "core_1 s ! nat (edge_v ?e) = \<phi> (edge_v ?e)" by blast
    from edge_member[OF r] u have "(n, edge_v ?e, edge_label ?e) \<in> edges_of G1" by simp
    with emb have "(\<phi> n, \<phi> (edge_v ?e), edge_label ?e) \<in> edges_of G2"
      by (auto simp: is_embedding_def)
    from edge_index[OF this] obtain j where j: "in_range (edge G2) j"
      "edge_u (edge G2 ! nat j) = \<phi> n" "edge_v (edge G2 ! nat j) = \<phi> (edge_v ?e)"
      "edge_label (edge G2 ! nat j) = edge_label ?e" by blast
    from x2 kh2 j(1,2) have "on_chain edge_next (edge G2) (head_edge G2 ! nat (\<phi> n)) j"
      by (simp add: exact_links_def)
    with j c show ?thesis by auto
  qed
  have "?h = - 1 \<or> on_chain edge_next (edge G1) ?h ?h"
    using hr by (auto intro!: on_chain.here simp: in_range_def)
  then have ok: "edges_ok edge_v edge_next (Suc (length (edge G1))) (edge G1) (core_1 s)
            (edge G2) (head_edge G2) (\<phi> n) ?h = Inr True"
    using hr by (intro edges_ok_found[OF wf_links_dec[OF l1] l2 kh2 ends found]) simp_all
  have p: "at (pred G2) (\<phi> n) = Inr (pred G2 ! nat (\<phi> n))" using kp2 by (rule at_Inr_I)
  let ?vs = "sorted_list_of_set (M2 s \<inter> pred G2 ! nat (\<phi> n))"
  have vs: "set ?vs \<subseteq> mapped (core_2 s) \<inter> \<phi> ` (pred G1 ! nat n)"
    using set_sorted_list_subset[of "M2 s \<inter> pred G2 ! nat (\<phi> n)"] M matched_pred[OF m n] by auto
  have bck: "core_2 s ! nat v \<in> pred G1 ! nat n" if "v \<in> set ?vs" for v
  proof -
    from that vs obtain a where a: "a \<in> pred G1 ! nat n" "v = \<phi> a" by auto
    from that vs follows_mapped(1)[OF m f] obtain b where b: "b \<in> mapped (core_1 s)" "v = \<phi> b"
      by auto
    have "a \<in> vertices_of G1" using a(1) matched_adj_sub(1)[OF m n] by auto
    moreover have "b \<in> vertices_of G1" using b(1) by (simp add: follows_vertices(1)[OF m f] mapped_def)
    ultimately have "a = b" using inj a(2) b(2) by (auto simp: inj_on_def)
    with follows_mapped(3)[OF m f] b a show ?thesis by auto
  qed
  have "mapped_back (core_2 s) (pred G1) n ?vs
      = Inr (\<forall>v\<in>set ?vs. core_2 s ! nat v \<in> pred G1 ! nat n)"
    using vs kp by (intro mapped_back_value) auto
  with bck have mb: "mapped_back (core_2 s) (pred G1) n ?vs = Inr True" by simp
  show ?thesis
    unfolding checkPredRule_def using h ok p mb by (simp del: edges_ok.simps)
qed

lemma checkSuccRule_follows:
  assumes m: "matched G1 G2 \<phi>" and f: "follows G1 G2 \<phi> s" and n: "n \<in> vertices_of G1"
  shows "checkSuccRule s G1 G2 n (\<phi> n) = Inr True"
proof -
  note bij = matched_bij[OF m]
  from bij have inj: "inj_on \<phi> (vertices_of G1)" by (simp add: bij_betw_def)
  from bij n have pn: "\<phi> n \<in> vertices_of G2" by (auto simp: bij_betw_def)
  from m have w1: "wf_graph G1" and w2: "wf_graph G2" and e1: "exact_graph G1"
    and e2: "exact_graph G2" and emb: "is_embedding G1 G2 \<phi>" by (simp_all add: matched_def)
  from f have fit: "fits G1 G2 s" and M: "M2 s = mapped (core_2 s)"
    and fol: "\<forall>n\<in>mapped (core_1 s). core_1 s ! nat n = \<phi> n"
    by (simp_all add: follows_def search_inv_def core_inv_def)
  have rn: "in_range (vertex G1) n" and rp: "in_range (vertex G2) (\<phi> n)"
    using n pn by (simp_all add: vertices_of_wf[OF w1] vertices_of_wf[OF w2])
  have kh: "in_range (rev_head_edge G1) n" and kp: "in_range (succ G1) n"
    and kh2: "in_range (rev_head_edge G2) (\<phi> n)" and kp2: "in_range (succ G2) (\<phi> n)"
    using rn rp wf_graph_ranges[OF w1] wf_graph_ranges[OF w2] by simp_all
  let ?h = "rev_head_edge G1 ! nat n"
  have h: "at (rev_head_edge G1) n = Inr ?h" using kh by (rule at_Inr_I)
  have l1: "wf_links (edge G1) (rev_head_edge G1) edge_prev"
    and l2: "wf_links (edge G2) (rev_head_edge G2) edge_prev"
    using w1 w2 by (simp_all add: wf_graph_def)
  have x1: "exact_links (edge G1) (rev_head_edge G1) edge_prev edge_v"
    and x2: "exact_links (edge G2) (rev_head_edge G2) edge_prev edge_v"
    using e1 e2 by (simp_all add: exact_graph_def)
  have hr: "- 1 \<le> ?h \<and> ?h < int (length (edge G1))" by (rule wf_links_head[OF l1 kh])
  have ends: "\<forall>e\<in>set (edge G1). in_range (core_1 s) (edge_u e)"
    using wf_graph_ends[OF w1] fit by (simp add: fits_def in_range_def)
  have found: "\<exists>j. on_chain edge_prev (edge G2) (rev_head_edge G2 ! nat (\<phi> n)) j \<and>
            edge_u (edge G2 ! nat j) = core_1 s ! nat (edge_u (edge G1 ! nat eid)) \<and>
            edge_label (edge G2 ! nat j) = edge_label (edge G1 ! nat eid)"
    if oc: "on_chain edge_prev (edge G1) ?h eid"
      and nm: "core_1 s ! nat (edge_u (edge G1 ! nat eid)) \<noteq> - 1" for eid
  proof -
    let ?e = "edge G1 ! nat eid"
    from x1 kh oc have r: "in_range (edge G1) eid" and u: "edge_v ?e = n"
      by (auto simp: exact_links_def)
    have "in_range (core_1 s) (edge_u ?e)" using ends in_range_nth_mem[OF r] by simp
    with nm have "edge_u ?e \<in> mapped (core_1 s)" by (simp add: mapped_def)
    with fol have c: "core_1 s ! nat (edge_u ?e) = \<phi> (edge_u ?e)" by blast
    from edge_member[OF r] u have "(edge_u ?e, n, edge_label ?e) \<in> edges_of G1" by simp
    with emb have "(\<phi> (edge_u ?e), \<phi> n, edge_label ?e) \<in> edges_of G2"
      by (auto simp: is_embedding_def)
    from edge_index[OF this] obtain j where j: "in_range (edge G2) j"
      "edge_u (edge G2 ! nat j) = \<phi> (edge_u ?e)" "edge_v (edge G2 ! nat j) = \<phi> n"
      "edge_label (edge G2 ! nat j) = edge_label ?e" by blast
    from x2 kh2 j(1,3) have "on_chain edge_prev (edge G2) (rev_head_edge G2 ! nat (\<phi> n)) j"
      by (simp add: exact_links_def)
    with j c show ?thesis by auto
  qed
  have "?h = - 1 \<or> on_chain edge_prev (edge G1) ?h ?h"
    using hr by (auto intro!: on_chain.here simp: in_range_def)
  then have ok: "edges_ok edge_u edge_prev (Suc (length (edge G1))) (edge G1) (core_1 s)
            (edge G2) (rev_head_edge G2) (\<phi> n) ?h = Inr True"
    using hr by (intro edges_ok_found[OF wf_links_dec[OF l1] l2 kh2 ends found]) simp_all
  have p: "at (succ G2) (\<phi> n) = Inr (succ G2 ! nat (\<phi> n))" using kp2 by (rule at_Inr_I)
  let ?vs = "sorted_list_of_set (M2 s \<inter> succ G2 ! nat (\<phi> n))"
  have vs: "set ?vs \<subseteq> mapped (core_2 s) \<inter> \<phi> ` (succ G1 ! nat n)"
    using set_sorted_list_subset[of "M2 s \<inter> succ G2 ! nat (\<phi> n)"] M matched_succ[OF m n] by auto
  have bck: "core_2 s ! nat v \<in> succ G1 ! nat n" if "v \<in> set ?vs" for v
  proof -
    from that vs obtain a where a: "a \<in> succ G1 ! nat n" "v = \<phi> a" by auto
    from that vs follows_mapped(1)[OF m f] obtain b where b: "b \<in> mapped (core_1 s)" "v = \<phi> b"
      by auto
    have "a \<in> vertices_of G1" using a(1) matched_adj_sub(2)[OF m n] by auto
    moreover have "b \<in> vertices_of G1" using b(1) by (simp add: follows_vertices(1)[OF m f] mapped_def)
    ultimately have "a = b" using inj a(2) b(2) by (auto simp: inj_on_def)
    with follows_mapped(3)[OF m f] b a show ?thesis by auto
  qed
  have "mapped_back (core_2 s) (succ G1) n ?vs
      = Inr (\<forall>v\<in>set ?vs. core_2 s ! nat v \<in> succ G1 ! nat n)"
    using vs kp by (intro mapped_back_value) auto
  with bck have mb: "mapped_back (core_2 s) (succ G1) n ?vs = Inr True" by simp
  show ?thesis
    unfolding checkSuccRule_def using h ok p mb by (simp del: edges_ok.simps)
qed

lemma rules_follow:
  assumes m: "matched G1 G2 \<phi>" and f: "follows G1 G2 \<phi> s" and n: "n \<in> vertices_of G1"
  shows "andalso (checkSemRules s G1 G2 n (\<phi> n)) (checkSynRules s G1 G2 n (\<phi> n)) = Inr True"
proof -
  from matched_bij[OF m] n have pn: "\<phi> n \<in> vertices_of G2" by (auto simp: bij_betw_def)
  from m have w1: "wf_graph G1" and w2: "wf_graph G2" and emb: "is_embedding G1 G2 \<phi>"
    by (simp_all add: matched_def)
  have rn: "in_range (vertex G1) n" and rp: "in_range (vertex G2) (\<phi> n)"
    using n pn by (simp_all add: vertices_of_wf[OF w1] vertices_of_wf[OF w2])
  have "vertex G1 ! nat n = vertex G2 ! nat (\<phi> n)"
    using emb n by (simp add: is_embedding_def label_of_def)
  then show ?thesis
    unfolding checkSynRules_def
    by (simp add: andalso_def checkSemRules_value[OF rn rp]
        checkPredRule_follows[OF m f n] checkSuccRule_follows[OF m f n]
        checkInRule_follows[OF m f n] checkOutRule_follows[OF m f n]
        checkNewRule_follows[OF m f n])
qed

text \<open>
  Such a state has a candidate pair \<open>(n, \<phi> n)\<close>, the extension by it follows \<open>\<phi>\<close>
  again, and so the search succeeds from it.
\<close>

lemma follows_candidate:
  assumes m: "matched G1 G2 \<phi>" and f: "follows G1 G2 \<phi> s"
    and neq: "int (card (M1 s)) \<noteq> s_vertex_count s"
    and gen: "genCandiPairSet s = Inr P"
  shows "\<exists>n. (n, \<phi> n) \<in> set P"
proof -
  from f have inv: "search_inv G1 G2 s" and ci: "core_inv s"
    and i2: "in_2 s = \<phi> ` in_1 s" and o2: "out_2 s = \<phi> ` out_1 s"
    by (simp_all add: follows_def search_inv_def)
  from m have w: "wf_graph G1" by (simp add: matched_def)
  from inv w have l: "int (length (core_1 s)) = s_vertex_count s"
    "length (core_2 s) = length (core_1 s)"
    by (simp_all add: search_inv_def fits_def wf_graph_def)
  have sub: "finite A \<and> (\<forall>a\<in>A. 0 \<le> a)" if "A \<subseteq> unmapped c" for A c
  proof
    show "finite A" using that by (rule finite_subset) simp
    show "\<forall>a\<in>A. 0 \<le> a" using that by (auto simp: unmapped_def in_range_def)
  qed
  from ci have u1: "out_1 s \<subseteq> unmapped (core_1 s)" "in_1 s \<subseteq> unmapped (core_1 s)"
    and u2: "out_2 s \<subseteq> unmapped (core_2 s)" "in_2 s \<subseteq> unmapped (core_2 s)"
    by (simp_all add: core_inv_def)
  consider (out) "out_1 s \<noteq> {}" | (inn) "out_1 s = {}" "in_1 s \<noteq> {}"
    | (all) "out_1 s = {}" "in_1 s = {}" by blast
  then show ?thesis
  proof cases
    case out
    then have ne: "out_2 s \<noteq> {}" by (simp add: o2)
    then have "max_of (out_2 s) \<in> out_2 s" using sub[OF u2(1)] by (intro max_of_mem) auto
    then obtain n where n: "n \<in> out_1 s" "\<phi> n = max_of (out_2 s)" by (auto simp: o2)
    have "P = map (\<lambda>vid1. (vid1, max_of (out_2 s))) (sorted_list_of_set (out_1 s))"
      using gen out ne by (simp add: genCandiPairSet_def)
    then have "(n, \<phi> n) \<in> set P" using n sub[OF u1(1)] by auto
    then show ?thesis ..
  next
    case inn
    then have ne: "in_2 s \<noteq> {}" and oe: "out_2 s = {}" by (simp_all add: i2 o2)
    then have "max_of (in_2 s) \<in> in_2 s" using sub[OF u2(2)] by (intro max_of_mem) auto
    then obtain n where n: "n \<in> in_1 s" "\<phi> n = max_of (in_2 s)" by (auto simp: i2)
    have "P = map (\<lambda>vid1. (vid1, max_of (in_2 s))) (sorted_list_of_set (in_1 s))"
      using gen inn ne by (simp add: genCandiPairSet_def)
    then have "(n, \<phi> n) \<in> set P" using n sub[OF u1(2)] by auto
    then show ?thesis ..
  next
    case all
    with gen obtain r where
      r: "scan_down (core_2 s) (nat (s_vertex_count s)) = Inr r"
      and up: "unmapped_pairs (core_1 s) r [0..s_vertex_count s - 1] = Inr P"
      using l by (auto simp: genCandiPairSet_def bnd_eq_Inr split: if_splits)
    have "card (mapped (core_2 s)) \<noteq> length (core_2 s)"
      using card_mapped_eq[OF ci] ci neq l by (simp add: core_inv_def)
    then obtain i where "i < length (core_2 s)" "core_2 s ! i = - 1"
      using exists_unmapped by blast
    then have "r \<noteq> - 1"
      using scan_down_finds[of "nat (s_vertex_count s)" "core_2 s" r i] r l by simp
    with scan_down_Inr[OF r] have "r \<in> unmapped (core_2 s)" by simp
    then obtain n where n: "n \<in> unmapped (core_1 s)" "r = \<phi> n"
      using follows_mapped(2)[OF m f] by auto
    then have "n \<in> set [0..s_vertex_count s - 1]" "core_1 s ! nat n = - 1"
      using l by (auto simp: unmapped_def in_range_def)
    with up n(2) have "(n, \<phi> n) \<in> set P" by (auto simp: unmapped_pairs_Inr)
    then show ?thesis ..
  qed
qed

lemma image_frontier:
  assumes inj: "inj_on \<phi> D" and A: "A \<subseteq> D" and p: "p \<subseteq> D" and M: "M \<subseteq> D" and n: "n \<in> D"
  shows "(\<phi> ` A \<union> {b \<in> \<phi> ` p. b \<notin> \<phi> ` M \<and> b \<noteq> \<phi> n}) - {\<phi> n}
       = \<phi> ` ((A \<union> {a \<in> p. a \<notin> M \<and> a \<noteq> n}) - {n})"
proof -
  have eq: "\<phi> x = \<phi> y \<longleftrightarrow> x = y" if "x \<in> D" "y \<in> D" for x y
    using inj that by (auto simp: inj_on_def)
  have 1: "{b \<in> \<phi> ` p. b \<notin> \<phi> ` M \<and> b \<noteq> \<phi> n} = \<phi> ` {a \<in> p. a \<notin> M \<and> a \<noteq> n}"
  proof
    show "{b \<in> \<phi> ` p. b \<notin> \<phi> ` M \<and> b \<noteq> \<phi> n} \<subseteq> \<phi> ` {a \<in> p. a \<notin> M \<and> a \<noteq> n}" by auto
    show "\<phi> ` {a \<in> p. a \<notin> M \<and> a \<noteq> n} \<subseteq> {b \<in> \<phi> ` p. b \<notin> \<phi> ` M \<and> b \<noteq> \<phi> n}"
    proof
      fix b assume "b \<in> \<phi> ` {a \<in> p. a \<notin> M \<and> a \<noteq> n}"
      then obtain a where a: "a \<in> p" "a \<notin> M" "a \<noteq> n" "b = \<phi> a" by auto
      have "\<phi> a \<notin> \<phi> ` M"
      proof
        assume "\<phi> a \<in> \<phi> ` M"
        then obtain c where "c \<in> M" "\<phi> a = \<phi> c" by auto
        with eq[of a c] a p M show False by auto
      qed
      moreover have "\<phi> a \<noteq> \<phi> n" using eq[of a n] a p n by auto
      ultimately show "b \<in> {b \<in> \<phi> ` p. b \<notin> \<phi> ` M \<and> b \<noteq> \<phi> n}" using a by auto
    qed
  qed
  have "\<phi> ` ((A \<union> {a \<in> p. a \<notin> M \<and> a \<noteq> n}) - {n})
      = \<phi> ` (A \<union> {a \<in> p. a \<notin> M \<and> a \<noteq> n}) - \<phi> ` {n}"
    using A p n by (intro inj_on_image_set_diff[OF inj]) auto
  then show ?thesis by (simp add: 1 image_Un)
qed

lemma follows_step:
  assumes m: "matched G1 G2 \<phi>" and f: "follows G1 G2 \<phi> s" and n: "n \<in> unmapped (core_1 s)"
    and add: "addNewPair s n (\<phi> n) (pred G1 ! nat n) (pred G2 ! nat (\<phi> n))
                (succ G1 ! nat n) (succ G2 ! nat (\<phi> n)) = Inr s'"
  shows "follows G1 G2 \<phi> s'"
proof -
  from m have w1: "wf_graph G1" and w2: "wf_graph G2" by (simp_all add: matched_def)
  from f have inv: "search_inv G1 G2 s" and ci: "core_inv s"
    and fol: "\<forall>n\<in>mapped (core_1 s). core_1 s ! nat n = \<phi> n"
    and i2: "in_2 s = \<phi> ` in_1 s" and o2: "out_2 s = \<phi> ` out_1 s"
    by (simp_all add: follows_def search_inv_def)
  note V = follows_vertices[OF m f]
  from matched_bij[OF m] have inj: "inj_on \<phi> (vertices_of G1)" by (simp add: bij_betw_def)
  from n have nv: "n \<in> vertices_of G1" and rn: "in_range (core_1 s) n"
    and cn: "core_1 s ! nat n = - 1" by (simp_all add: V unmapped_def)
  from n follows_mapped(2)[OF m f] have pu: "\<phi> n \<in> unmapped (core_2 s)" by auto
  then have rp: "in_range (core_2 s) (\<phi> n)" and cp: "core_2 s ! nat (\<phi> n) = - 1"
    and p0: "\<phi> n \<noteq> - 1" "0 \<le> \<phi> n" by (auto simp: unmapped_def in_range_def)
  from n have n0: "n \<noteq> - 1" "0 \<le> n" by (auto simp: unmapped_def in_range_def)
  from step_ok[OF w1 w2 inv n pu] add have inv': "search_inv G1 G2 s'" by simp
  note as = matched_adj_sub[OF m nv]
  have fp2: "finite (pred G2 ! nat (\<phi> n))" "finite (succ G2 ! nat (\<phi> n))"
    unfolding matched_pred[OF m nv] matched_succ[OF m nv] using as(3,4) by simp_all
  have r1: "\<forall>a\<in>pred G1 ! nat n. in_range (core_1 s) a" "\<forall>a\<in>succ G1 ! nat n. in_range (core_1 s) a"
    using as(1,2) by (auto simp: V)
  have r2: "\<forall>a\<in>pred G2 ! nat (\<phi> n). in_range (core_2 s) a"
    "\<forall>a\<in>succ G2 ! nat (\<phi> n). in_range (core_2 s) a"
    using add fp2 by (simp_all add: addNewPair_Inr)
  have M1: "mapped (core_1 s) = {i. in_range (core_1 s) i \<and> core_1 s ! nat i \<noteq> - 1}"
    and M2: "mapped (core_2 s) = {i. in_range (core_2 s) i \<and> core_2 s ! nat i \<noteq> - 1}"
    by (simp_all add: mapped_def)
  have Ms: "mapped (core_1 s) \<subseteq> vertices_of G1" by (auto simp: V mapped_def)
  note fs = follows_frontier_sub[OF m f]
  have c1: "core_1 s' = (core_1 s)[nat n := \<phi> n]" using add by (simp add: addNewPair_Inr)
  have fol': "\<forall>i\<in>mapped (core_1 s'). core_1 s' ! nat i = \<phi> i"
  proof
    fix i assume "i \<in> mapped (core_1 s')"
    then have i: "i = n \<or> i \<in> mapped (core_1 s)"
      unfolding c1 using mapped_update[OF rn p0(1)] by simp
    then have "0 \<le> i" using n0 by (auto simp: mapped_def in_range_def)
    then have "core_1 s' ! nat i = (if i = n then \<phi> n else core_1 s ! nat i)"
      unfolding c1 by (rule nth_update_int[OF rn])
    with i fol show "core_1 s' ! nat i = \<phi> i" by auto
  qed
  have in1: "in_1 s' = (in_1 s \<union> {a \<in> pred G1 ! nat n. a \<notin> mapped (core_1 s) \<and> a \<noteq> n}) - {n}"
    using add new_frontier[OF rn p0(1) cn as(3) r1(1) M1] by (simp add: addNewPair_Inr)
  have out1: "out_1 s' = (out_1 s \<union> {a \<in> succ G1 ! nat n. a \<notin> mapped (core_1 s) \<and> a \<noteq> n}) - {n}"
    using add new_frontier[OF rn p0(1) cn as(4) r1(2) M1] by (simp add: addNewPair_Inr)
  have in2: "in_2 s' = (in_2 s \<union> {a \<in> pred G2 ! nat (\<phi> n).
                 a \<notin> mapped (core_2 s) \<and> a \<noteq> \<phi> n}) - {\<phi> n}"
    using add new_frontier[OF rp n0(1) cp fp2(1) r2(1) M2] by (simp add: addNewPair_Inr)
  have out2: "out_2 s' = (out_2 s \<union> {a \<in> succ G2 ! nat (\<phi> n).
                 a \<notin> mapped (core_2 s) \<and> a \<noteq> \<phi> n}) - {\<phi> n}"
    using add new_frontier[OF rp n0(1) cp fp2(2) r2(2) M2] by (simp add: addNewPair_Inr)
  have "in_2 s' = \<phi> ` in_1 s'"
    unfolding in1 in2 i2 matched_pred[OF m nv] follows_mapped(1)[OF m f]
    by (rule image_frontier[OF inj fs(1) as(1) Ms nv])
  moreover have "out_2 s' = \<phi> ` out_1 s'"
    unfolding out1 out2 o2 matched_succ[OF m nv] follows_mapped(1)[OF m f]
    by (rule image_frontier[OF inj fs(2) as(2) Ms nv])
  ultimately show ?thesis using inv' fol' by (simp add: follows_def)
qed

lemma solve_follows:
  assumes "matched G1 G2 \<phi>" "follows G1 G2 \<phi> s"
  shows "solve G1 G2 s = Inr True"
  using assms
proof (induction G1 G2 s rule: solve.induct)
  case (1 G1 G2 s)
  note m = "1.prems"(1) and f = "1.prems"(2)
  from m have w: "wf_graph G1" "wf_graph G2" by (simp_all add: matched_def)
  from f have inv: "search_inv G1 G2 s" by (simp add: follows_def)
  show ?case
  proof (cases "int (card (M1 s)) = s_vertex_count s")
    case True
    then show ?thesis by (simp add: solve_unfold)
  next
    case False
    from inv w have l: "int (length (core_1 s)) = s_vertex_count s"
      "length (core_2 s) = length (core_1 s)" and ci: "core_inv s"
      by (simp_all add: search_inv_def fits_def wf_graph_def)
    from genCandi_ok[OF ci l False] obtain P where P: "genCandiPairSet s = Inr P"
      and fresh: "\<forall>(n, m)\<in>set P. n \<in> unmapped (core_1 s) \<and> m \<in> unmapped (core_2 s)" by blast
    have tot: "\<exists>b. attempt G1 G2 s p = Inr b" if p: "p \<in> set P" for p
    proof -
      obtain n k where nm: "p = (n, k)" by (cases p)
      with fresh p have n: "n \<in> unmapped (core_1 s)" and k: "k \<in> unmapped (core_2 s)" by auto
      have "\<exists>b. solve G1 G2 s' = Inr b"
        if "addNewPair s n k (pred G1 ! nat n) (pred G2 ! nat k)
             (succ G1 ! nat n) (succ G2 ! nat k) = Inr s'" for s'
        using step_ok[OF w inv n k] that by (auto intro: solve_total[OF w])
      then show ?thesis unfolding nm by (intro attempt_total[OF w inv n k]) blast
    qed
    from follows_candidate[OF m f False P] obtain n where n: "(n, \<phi> n) \<in> set P" ..
    with fresh have nu: "n \<in> unmapped (core_1 s)" and pu: "\<phi> n \<in> unmapped (core_2 s)" by auto
    have nv: "n \<in> vertices_of G1" using nu by (simp add: follows_vertices(1)[OF m f] unmapped_def)
    have rn: "in_range (vertex G1) n" "in_range (vertex G2) (\<phi> n)"
      by (rule search_inv_ranges(1)[OF inv nu], rule search_inv_ranges(2)[OF inv pu])
    have ats: "at (pred G1) n = Inr (pred G1 ! nat n)" "at (succ G1) n = Inr (succ G1 ! nat n)"
      "at (pred G2) (\<phi> n) = Inr (pred G2 ! nat (\<phi> n))"
      "at (succ G2) (\<phi> n) = Inr (succ G2 ! nat (\<phi> n))"
      using rn wf_graph_ranges[OF w(1)] wf_graph_ranges[OF w(2)] by (simp_all add: at_def)
    have ok: "andalso (checkSemRules s G1 G2 n (\<phi> n)) (checkSynRules s G1 G2 n (\<phi> n)) = Inr True"
      by (rule rules_follow[OF m f nv])
    from step_ok[OF w inv nu pu] obtain s' where
      add: "addNewPair s n (\<phi> n) (pred G1 ! nat n) (pred G2 ! nat (\<phi> n))
              (succ G1 ! nat n) (succ G2 ! nat (\<phi> n)) = Inr s'" by blast
    have f': "follows G1 G2 \<phi> s'" by (rule follows_step[OF m f nu add])
    have "solve G1 G2 s' = Inr True"
      using "1.IH"[OF False P n refl ok _ ats(1,3,2,4) add m f'] by simp
    then have "attempt G1 G2 s (n, \<phi> n) = Inr True"
      unfolding attempt_pair ok by (simp add: ats add)
    with tot n have "first_success (attempt G1 G2 s) P = Inr True"
      by (intro first_success_True[where q="(n, \<phi> n)"]) auto
    then show ?thesis using False P by (simp add: solve_unfold)
  qed
qed

lemma follows_newState:
  assumes m: "matched G1 G2 \<phi>"
  shows "follows G1 G2 \<phi> (newState (vertex_count G1) sub)"
proof -
  from m have w: "wf_graph G1" "wf_graph G2" and vc: "vertex_count G2 = vertex_count G1"
    by (simp_all add: matched_def)
  have "core_inv (newState (vertex_count G1) sub)" by (rule core_inv_newState)
  moreover have "mapped (core_1 (newState (vertex_count G1) sub)) = {}"
    by (simp add: newState_def mapped_replicate)
  moreover have "length (vertex G2) = length (vertex G1)" using w vc by (simp add: wf_graph_def)
  ultimately show ?thesis
    using w by (simp add: follows_def search_inv_def fits_def)
      (simp add: newState_def wf_graph_def)
qed

text \<open>
  A graph is matched as a subgraph of itself.
\<close>

lemma subisomorphism_self:
  assumes "wf_graph G"
  shows "subisomorphism G G = Inr True"
  unfolding subisomorphism_def
  using solve_same[OF assms refl same_state_newState[OF assms]] by simp

section \<open>Subgraph search on graphs with the same number of vertices\<close>

text \<open>
  Where the two graphs have the same number of vertices, the core vectors have an entry
  per vertex of either graph. There \<open>subisomorphism\<close> finds every induced embedding
  of the query in the data graph: an injective map of the vertices that keeps the vertex
  labels, carries every labelled edge of the query to an edge of the data graph with the
  same label, and under which every edge of the data graph joins the images of two vertices
  that the query joins in the same direction. The data graph may have further parallel
  edges with other labels.
\<close>

lemma subisomorphism_finds_induced_match:
  assumes "build initial cs1 = Inr G1" and "build initial cs2 = Inr G2"
    and "vertex_count G2 = vertex_count G1" and "edge_count G1 \<le> edge_count G2"
    and "is_embedding G1 G2 \<phi>" and "induced G1 G2 \<phi>"
  shows "subisomorphism G1 G2 = Inr True"
proof -
  have "wf_graph G1" using assms(1) by (rule wf_build[OF wf_initial])
  moreover have "wf_graph G2" using assms(2) by (rule wf_build[OF wf_initial])
  moreover have "exact_graph G1"
    using assms(1) by (rule exact_build[OF wf_initial exact_initial])
  moreover have "exact_graph G2"
    using assms(2) by (rule exact_build[OF wf_initial exact_initial])
  ultimately have m: "matched G1 G2 \<phi>" using assms(3,5,6) by (simp add: matched_def)
  show ?thesis
    unfolding subisomorphism_def
    using solve_follows[OF m follows_newState[OF m]] assms(3,4) by simp
qed

lemma subisomorphism_finds_chain:
  "build initial [V 1, V 2, V 3, E 0 1 5, E 1 2 6] = Inr chain1 \<and>
   build initial [V 3, V 2, V 1, E 2 1 5, E 1 0 6, E 1 0 7] = Inr chain2 \<and>
   vertex_count chain2 = vertex_count chain1 \<and> edge_count chain1 \<le> edge_count chain2 \<and>
   is_embedding chain1 chain2 (\<lambda>n. 2 - n) \<and> induced chain1 chain2 (\<lambda>n. 2 - n) \<and>
   subisomorphism chain1 chain2 = Inr True"
proof -
  have c: "vertex_count chain2 = vertex_count chain1" "edge_count chain1 \<le> edge_count chain2"
    by (simp_all add: chain1_def chain2_def)
  from subisomorphism_finds_induced_match[OF chain1_built chain2_built c
      chain1_in_chain2 chain1_induced]
  show ?thesis using chain1_built chain2_built c chain1_in_chain2 chain1_induced by simp
qed

text \<open>
  It finds induced embeddings only. The path \<open>0 \<rightarrow> 1 \<rightarrow> 2\<close> embeds into the path with
  the chord \<open>0 \<rightarrow> 2\<close> by the identity, and \<open>subisomorphism\<close> returns false:
  \<open>checkPredRule\<close> and \<open>checkSuccRule\<close> demand that every edge of \<open>G2\<close> between
  mapped vertices is an edge of \<open>G1\<close>, and the look-ahead rules count the vertices the
  extra edges put on the frontier of \<open>G2\<close>.
\<close>

lemma subisomorphism_rejects_embedded_path:
  "subisomorphism path3 chord3 = Inr False \<and> is_embedding path3 chord3 (\<lambda>n. n)"
proof -
  have "subisomorphism path3 chord3 = Inr False" by code_simp
  with path3_in_chord3 show ?thesis by simp
qed

section \<open>Claims\<close>

text \<open>
  C1 (soundness of the matchers). The claim: when \<open>isomorphism\<close> returns true there is
  an isomorphism of the two graphs, and when \<open>subisomorphism\<close> returns true there is an
  embedding. The program breaks it on self-loops: \<open>checkPredRule\<close> and \<open>checkSuccRule\<close>
  compare an edge's label only when its other endpoint is already mapped, and for a
  self-loop of the candidate \<open>n\<close> that endpoint is \<open>n\<close> itself, not yet mapped. On two
  one-vertex graphs whose self-loops carry different labels both matchers return true,
  and no isomorphism and no embedding exists.
  (\<open>iso_accepts_par\<close> and \<open>par_not_isomorphic\<close> show a second way for the exact matcher:
  labels of the data graph's edges are never looked up in the query.)
\<close>

theorem matchers_accept_mismatched_self_loops:
  "isomorphism loop1 loop2 = Inr True \<and> subisomorphism loop1 loop2 = Inr True \<and>
   (\<forall>\<phi>. \<not> is_isomorphism loop1 loop2 \<phi>) \<and> (\<forall>\<phi>. \<not> is_embedding loop1 loop2 \<phi>)"
proof -
  have "isomorphism loop1 loop2 = Inr True" by code_simp
  moreover have "subisomorphism loop1 loop2 = Inr True" by code_simp
  ultimately show ?thesis
    using loops_not_isomorphic loops_not_embeddable by blast
qed

theorem matchers_accept_mismatched_self_loops_witness:
  "isomorphism loop1 loop2 = Inr True \<and> \<not> is_isomorphism loop1 loop2 (\<lambda>n. n) \<and>
   subisomorphism loop1 loop2 = Inr True \<and> \<not> is_embedding loop1 loop2 (\<lambda>n. n)"
  using matchers_accept_mismatched_self_loops by blast

text \<open>
  C2 (the "in" look-ahead rule). The claim: \<open>checkInRule\<close> returns true iff \<open>a = b\<close> and
  \<open>c = d\<close> in exact mode, iff \<open>a \<le> b\<close> and \<open>c \<le> d\<close> in subgraph mode. The program tests
  \<open>c \<noteq> d\<close> under \<open>subisomorphism\<close> where \<open>checkOutRule\<close> and \<open>checkNewRule\<close> test it
  under \<open>!subisomorphism\<close>. In exact mode \<open>c\<close> and \<open>d\<close> are therefore not compared: in
  \<open>fan_state\<close>, for the first candidate \<open>(0, 1)\<close>, \<open>a = b = 0\<close>, \<open>c = 1\<close>, \<open>d = 0\<close> and
  the rule returns true. In subgraph mode it demands \<open>c = d\<close>: in \<open>chord_state\<close>, for the
  candidate \<open>(1, 1)\<close>, \<open>a = b = 0\<close>, \<open>c = 0\<close>, \<open>d = 1\<close> and the rule returns false.
\<close>

theorem checkInRule_compares_pred_in_wrong_mode:
  "checkInRule fan_state fan1 fan2 0 1 = Inr True \<and>
   set_intersection_size (in_1 fan_state) (succ fan1 ! 0) = 0 \<and>
   set_intersection_size (in_2 fan_state) (succ fan2 ! 1) = 0 \<and>
   set_intersection_size (in_1 fan_state) (pred fan1 ! 0) = 1 \<and>
   set_intersection_size (in_2 fan_state) (pred fan2 ! 1) = 0 \<and>
   checkInRule chord_state path3 chord3 1 1 = Inr False \<and>
   set_intersection_size (in_1 chord_state) (succ path3 ! 1) = 0 \<and>
   set_intersection_size (in_2 chord_state) (succ chord3 ! 1) = 0 \<and>
   set_intersection_size (in_1 chord_state) (pred path3 ! 1) = 0 \<and>
   set_intersection_size (in_2 chord_state) (pred chord3 ! 1) = 1"
  by code_simp

text \<open>
  C3 (candidate generation, third case). The claim: \<open>m*\<close> is the largest unmapped vertex
  of G2, over all vertices of G2. The program scans \<open>core_2\<close> downwards from
  \<open>vertex_count - 1\<close>, the vertex count of the query G1. For the first state of
  \<open>subisomorphism(point1, point2)\<close> nothing is mapped and G2 has the vertices 0 and 1, so
  the claim's \<open>m*\<close> is 1; the program emits \<open>(0, 0)\<close>.
\<close>

theorem genCandiPairSet_scans_query_count:
  "genCandiPairSet (newState (vertex_count point1) True) = Inr [(0, 0)] \<and>
   M2 (newState (vertex_count point1) True) = {} \<and>
   Max (vertices_of point2 - M2 (newState (vertex_count point1) True)) = 1"
proof -
  have "genCandiPairSet (newState (vertex_count point1) True) = Inr [(0, 0)]" by code_simp
  moreover have "vertices_of point2 = {0, 1}" by (auto simp: vertices_of_def point2_def)
  ultimately show ?thesis by (simp add: newState_def)
qed

text \<open>
  C4 (bounds of \<open>core_2\<close> in subgraph mode). The claim: every index used on \<open>core_2\<close> is
  below its length. The constructor sizes \<open>core_2\<close> by the vertex count of the query; with
  a data graph of two vertices and a query of one, \<open>checkNewRule\<close> reads \<open>core_2[1]\<close> in
  a vector of length 1, on the first candidate of the search.
\<close>

theorem subisomorphism_reads_core_2_out_of_bounds:
  "subisomorphism point1 point2 = Inl OutOfBounds \<and>
   checkNewRule (newState (vertex_count point1) True) point1 point2 0 0 = Inl OutOfBounds \<and>
   length (core_2 (newState (vertex_count point1) True)) = 1 \<and> vertex_count point2 = 2"
  by code_simp

text \<open>
  C5 (monotonicity of \<open>subisomorphism\<close>). The claim: whenever \<open>G1\<close> embeds into
  \<open>G2\<close>, \<open>subisomorphism(G1, G2)\<close> returns true. The program breaks it on a data
  graph with more vertices than the query. The query \<open>point1\<close> is one vertex labelled 0,
  the data graph \<open>pointB\<close> two vertices labelled 1 and 0, neither has an edge; the map
  \<open>0 \<mapsto> 1\<close> is an embedding, and an induced one. \<open>subisomorphism\<close> passes its two
  guards (\<open>1 \<le> 2\<close> vertices, \<open>0 \<le> 0\<close> edges) and makes the state with the vertex count
  of the query, so \<open>core_2\<close> has one entry. \<open>genCandiPairSet\<close> scans \<open>core_2\<close>
  downwards from \<open>vertex_count - 1 = 0\<close> and emits the pair \<open>(0, 0)\<close> alone;
  \<open>checkSemRules\<close> rejects it, the labels being 0 and 1, and \<open>solve\<close> returns false.
  Vertex 1 of the data graph is never a candidate. It is the defect of C3 and C4: the state
  is sized and scanned by the vertex count of \<open>G1\<close>, where the comment at \<open>State\<close>
  gives \<open>core_2\<close> the length of \<open>G2\<close> and \<open>subisomorphism\<close> admits a larger \<open>G2\<close>.
  On graphs with the same number of vertices every induced embedding is found (lemma
  \<open>subisomorphism_finds_induced_match\<close>), and induced embeddings only (lemma
  \<open>subisomorphism_rejects_embedded_path\<close>); the embedding of the failing input is
  induced, so the failure does not rest on that reading of the claim.
\<close>

theorem subisomorphism_misses_match_in_larger_graph:
  "build initial [V 0] = Inr point1 \<and> build initial [V 1, V 0] = Inr pointB \<and>
   is_embedding point1 pointB (\<lambda>n. n + 1) \<and> induced point1 pointB (\<lambda>n. n + 1) \<and>
   subisomorphism point1 pointB = Inr False \<and>
   genCandiPairSet (newState (vertex_count point1) True) = Inr [(0, 0)] \<and>
   checkSemRules (newState (vertex_count point1) True) point1 pointB 0 0 = Inr False"
proof -
  have "subisomorphism point1 pointB = Inr False" by code_simp
  moreover have "genCandiPairSet (newState (vertex_count point1) True) = Inr [(0, 0)]"
    by code_simp
  moreover have "checkSemRules (newState (vertex_count point1) True) point1 pointB 0 0 = Inr False"
    by code_simp
  ultimately show ?thesis
    using point1_built pointB_built point1_in_pointB point1_induced_in_pointB by simp
qed

theorem subisomorphism_misses_match_in_larger_graph_witness:
  "subisomorphism point1 pointB = Inr False \<and> is_embedding point1 pointB (\<lambda>n. n + 1) \<and>
   label_of point1 0 = label_of pointB 1"
proof -
  have "label_of point1 0 = label_of pointB 1" by (simp add: label_of_def point1_def pointB_def)
  with subisomorphism_misses_match_in_larger_graph show ?thesis by simp
qed

text \<open>
  C6 (self-matching). For every graph \<open>G\<close> that the program can make, that is, for the
  result of every sequence of \<open>addVertex\<close> and \<open>addEdge\<close> calls that runs without a
  fault, \<open>isomorphism(G, G)\<close> returns true: no fault, no endless walk, and the answer
  true.
\<close>

theorem isomorphism_self:
  assumes "build initial cs = Inr G"
  shows "isomorphism G G = Inr True"
proof -
  have w: "wf_graph G" using assms by (rule wf_build[OF wf_initial])
  show ?thesis
    unfolding isomorphism_def
    using solve_same[OF w refl same_state_newState[OF w]] by simp
qed

theorem isomorphism_self_witness:
  "build initial [V 0, V 0, V 0, E 0 2 0, E 1 2 0, E 1 0 0] = Inr fan1 \<and>
   isomorphism fan1 fan1 = Inr True"
  using isomorphism_self[OF fan1_built] fan1_built by simp

text \<open>
  C7 (the state invariants are preserved by extension). For well-formed graphs, a state
  that satisfies the invariants of section 3 and a pair \<open>(n, m)\<close> of unmapped vertices,
  \<open>addNewPair(n, m, pred1[n], pred2[m], succ1[n], succ2[m])\<close> runs without a fault and
  its result satisfies the invariants again.
\<close>

theorem addNewPair_preserves_state_inv:
  assumes w1: "wf_graph G1" and w2: "wf_graph G2" and inv: "state_inv G1 G2 s"
    and n: "n \<in> vertices_of G1" and m: "m \<in> vertices_of G2"
    and cn: "core_1 s ! nat n = NULL_VIndex" and cm: "core_2 s ! nat m = NULL_VIndex"
  shows "\<exists>s'. addNewPair s n m (pred G1 ! nat n) (pred G2 ! nat m)
                 (succ G1 ! nat n) (succ G2 ! nat m) = Inr s' \<and> state_inv G1 G2 s'"
proof -
  let ?c1 = "(core_1 s)[nat n := m]" and ?c2 = "(core_2 s)[nat m := n]"
  let ?p1 = "pred G1 ! nat n" and ?p2 = "pred G2 ! nat m"
  let ?s1 = "succ G1 ! nat n" and ?s2 = "succ G2 ! nat m"
  from inv have len: "length (core_1 s) = length (vertex G1)" "length (core_2 s) = length (vertex G2)"
    by (simp_all add: state_inv_def)
  have V1: "\<And>i. i \<in> vertices_of G1 \<longleftrightarrow> in_range (core_1 s) i"
    and V2: "\<And>i. i \<in> vertices_of G2 \<longleftrightarrow> in_range (core_2 s) i"
    using len by (simp_all add: vertices_of_wf[OF w1] vertices_of_wf[OF w2] in_range_def)
  have V1': "\<And>i. in_range (vertex G1) i \<longleftrightarrow> in_range (core_1 s) i"
    and V2': "\<And>i. in_range (vertex G2) i \<longleftrightarrow> in_range (core_2 s) i"
    using len by (simp_all add: in_range_def)
  from n m have rn: "in_range (core_1 s) n" and rm: "in_range (core_2 s) m" by (simp_all add: V1 V2)
  then have pos: "0 \<le> n" "0 \<le> m" "n \<noteq> - 1" "m \<noteq> - 1" by (auto simp: in_range_def)
  have adj: "finite ?p1" "finite ?p2" "finite ?s1" "finite ?s2"
    "\<forall>a\<in>?p1. in_range (core_1 s) a" "\<forall>a\<in>?p2. in_range (core_2 s) a"
    "\<forall>a\<in>?s1. in_range (core_1 s) a" "\<forall>a\<in>?s2. in_range (core_2 s) a"
    using wf_graph_adj[OF w1, of n] wf_graph_adj[OF w2, of m] rn rm by (simp_all add: V1' V2')
  from inv have M1: "M1 s = {i. in_range (core_1 s) i \<and> core_1 s ! nat i \<noteq> - 1}"
    and M2: "M2 s = {i. in_range (core_2 s) i \<and> core_2 s ! nat i \<noteq> - 1}"
    by (auto simp: state_inv_def V1 V2)
  define s' where "s' = s\<lparr>M1 := insert n (M1 s), M2 := insert m (M2 s),
            core_1 := ?c1, core_2 := ?c2,
            in_1 := (in_1 s \<union> {a \<in> set (sorted_list_of_set ?p1). ?c1 ! nat a = - 1}) - {n},
            in_2 := (in_2 s \<union> {a \<in> set (sorted_list_of_set ?p2). ?c2 ! nat a = - 1}) - {m},
            out_1 := (out_1 s \<union> {a \<in> set (sorted_list_of_set ?s1). ?c1 ! nat a = - 1}) - {n},
            out_2 := (out_2 s \<union> {a \<in> set (sorted_list_of_set ?s2). ?c2 ! nat a = - 1}) - {m}\<rparr>"
  have add: "addNewPair s n m ?p1 ?p2 ?s1 ?s2 = Inr s'"
    unfolding addNewPair_Inr s'_def using rn rm adj by simp
  have nM1: "n \<notin> M1 s" and mM2: "m \<notin> M2 s" using cn cm by (simp_all add: M1 M2)
  have M1': "M1 s' = {i \<in> vertices_of G1. core_1 s' ! nat i \<noteq> - 1}"
    using mapped_update[OF rn pos(4)] by (simp add: s'_def M1 V1 mapped_def)
  have M2': "M2 s' = {i \<in> vertices_of G2. core_2 s' ! nat i \<noteq> - 1}"
    using mapped_update[OF rm pos(3)] by (simp add: s'_def M2 V2 mapped_def)
  have i1: "in_1 s' = {a. a \<notin> M1 s' \<and> (\<exists>b\<in>M1 s'. a \<in> pred G1 ! nat b)}"
  proof -
    have "in_1 s' = (in_1 s \<union> {a \<in> ?p1. a \<notin> M1 s \<and> a \<noteq> n}) - {n}"
      unfolding s'_def using new_frontier[OF rn pos(4) cn adj(1,5) M1] by simp
    also have "\<dots> = {a. a \<notin> insert n (M1 s) \<and> (\<exists>b\<in>insert n (M1 s). a \<in> pred G1 ! nat b)}"
      using inv by (intro frontier_step) (simp_all add: state_inv_def)
    finally show ?thesis by (simp add: s'_def)
  qed
  have o1: "out_1 s' = {a. a \<notin> M1 s' \<and> (\<exists>b\<in>M1 s'. a \<in> succ G1 ! nat b)}"
  proof -
    have "out_1 s' = (out_1 s \<union> {a \<in> ?s1. a \<notin> M1 s \<and> a \<noteq> n}) - {n}"
      unfolding s'_def using new_frontier[OF rn pos(4) cn adj(3,7) M1] by simp
    also have "\<dots> = {a. a \<notin> insert n (M1 s) \<and> (\<exists>b\<in>insert n (M1 s). a \<in> succ G1 ! nat b)}"
      using inv by (intro frontier_step) (simp_all add: state_inv_def)
    finally show ?thesis by (simp add: s'_def)
  qed
  have i2: "in_2 s' = {a. a \<notin> M2 s' \<and> (\<exists>b\<in>M2 s'. a \<in> pred G2 ! nat b)}"
  proof -
    have "in_2 s' = (in_2 s \<union> {a \<in> ?p2. a \<notin> M2 s \<and> a \<noteq> m}) - {m}"
      unfolding s'_def using new_frontier[OF rm pos(3) cm adj(2,6) M2] by simp
    also have "\<dots> = {a. a \<notin> insert m (M2 s) \<and> (\<exists>b\<in>insert m (M2 s). a \<in> pred G2 ! nat b)}"
      using inv by (intro frontier_step) (simp_all add: state_inv_def)
    finally show ?thesis by (simp add: s'_def)
  qed
  have o2: "out_2 s' = {a. a \<notin> M2 s' \<and> (\<exists>b\<in>M2 s'. a \<in> succ G2 ! nat b)}"
  proof -
    have "out_2 s' = (out_2 s \<union> {a \<in> ?s2. a \<notin> M2 s \<and> a \<noteq> m}) - {m}"
      unfolding s'_def using new_frontier[OF rm pos(3) cm adj(4,8) M2] by simp
    also have "\<dots> = {a. a \<notin> insert m (M2 s) \<and> (\<exists>b\<in>insert m (M2 s). a \<in> succ G2 ! nat b)}"
      using inv by (intro frontier_step) (simp_all add: state_inv_def)
    finally show ?thesis by (simp add: s'_def)
  qed
  have disj: "in_1 s' \<inter> M1 s' = {}" "out_1 s' \<inter> M1 s' = {}"
    "in_2 s' \<inter> M2 s' = {}" "out_2 s' \<inter> M2 s' = {}"
    using i1 o1 i2 o2 by blast+
  have e1: "\<forall>i\<in>vertices_of G1. core_1 s' ! nat i = - 1 \<or> core_1 s' ! nat i \<in> vertices_of G2"
  proof
    fix i assume i: "i \<in> vertices_of G1"
    then have "0 \<le> i" by (simp add: V1 in_range_def)
    then show "core_1 s' ! nat i = - 1 \<or> core_1 s' ! nat i \<in> vertices_of G2"
      using inv i m rn by (auto simp: s'_def nth_update_int state_inv_def)
  qed
  have e2: "\<forall>j\<in>vertices_of G2. core_2 s' ! nat j = - 1 \<or> core_2 s' ! nat j \<in> vertices_of G1"
  proof
    fix j assume j: "j \<in> vertices_of G2"
    then have "0 \<le> j" by (simp add: V2 in_range_def)
    then show "core_2 s' ! nat j = - 1 \<or> core_2 s' ! nat j \<in> vertices_of G1"
      using inv j n rm by (auto simp: s'_def nth_update_int state_inv_def)
  qed
  have old: "\<forall>x. in_range (core_1 s) x \<longrightarrow> (\<forall>y. in_range (core_2 s) y \<longrightarrow>
        (core_1 s ! nat x = y \<longleftrightarrow> core_2 s ! nat y = x))"
    using inv by (simp add: state_inv_def V1 V2)
  have bij: "\<forall>x\<in>vertices_of G1. \<forall>y\<in>vertices_of G2.
        core_1 s' ! nat x = y \<longleftrightarrow> core_2 s' ! nat y = x"
    using core_update_iff[OF rn rm cn cm old] by (simp add: s'_def V1 V2)
  have "state_inv G1 G2 s'"
    unfolding state_inv_def
    using len e1 e2 bij M1' M2' disj i1 o1 i2 o2 by (simp add: s'_def)
  with add show ?thesis by blast
qed

theorem addNewPair_preserves_state_inv_witness:
  "wf_graph fan1 \<and> wf_graph fan2 \<and> state_inv fan1 fan2 (newState 3 False) \<and>
   2 \<in> vertices_of fan1 \<and> 2 \<in> vertices_of fan2 \<and>
   core_1 (newState 3 False) ! nat 2 = NULL_VIndex \<and>
   core_2 (newState 3 False) ! nat 2 = NULL_VIndex \<and>
   addNewPair (newState 3 False) 2 2 (pred fan1 ! nat 2) (pred fan2 ! nat 2)
     (succ fan1 ! nat 2) (succ fan2 ! nat 2) = Inr fan_state \<and>
   state_inv fan1 fan2 fan_state"
proof -
  have v: "vertex_count fan1 = 3" "vertex_count fan2 = 3" by (simp_all add: fan1_def fan2_def)
  have inv: "state_inv fan1 fan2 (newState 3 False)"
    using state_inv_newState[OF wf_fan, of False] v by simp
  have n: "2 \<in> vertices_of fan1" "2 \<in> vertices_of fan2" by (simp_all add: vertices_of_def v)
  have c: "core_1 (newState 3 False) ! nat 2 = - 1" "core_2 (newState 3 False) ! nat 2 = - 1"
    by (simp_all add: newState_def)
  have a: "addNewPair (newState 3 False) 2 2 (pred fan1 ! nat 2) (pred fan2 ! nat 2)
     (succ fan1 ! nat 2) (succ fan2 ! nat 2) = Inr fan_state"
    using fan_state_reached by simp
  from addNewPair_preserves_state_inv[OF wf_fan inv n c] a
  have "state_inv fan1 fan2 fan_state" by simp
  with wf_fan inv n c a show ?thesis by simp
qed

text \<open>
  C8 (termination of the search). On well-formed graphs and for every state of the search
  tree: \<open>solve\<close> returns (a value or a fault, never a walk that runs forever); the
  measure \<open>mu\<close> by which the recursion of \<open>solve\<close> is shown to terminate is
  \<open>|V(G1)| - |M1|\<close> there; and every extension by a candidate pair, so every state
  \<open>solve\<close> recurses on, has an \<open>M1\<close> larger by exactly one and of at most \<open>|V(G1)|\<close>
  vertices.
\<close>

theorem solve_terminates:
  assumes w1: "wf_graph G1" and w2: "wf_graph G2" and r: "reachable G1 G2 sub s"
  shows "solve G1 G2 s \<noteq> Inl Diverges \<and>
         int (mu s) = vertex_count G1 - int (card (M1 s)) \<and>
         (\<forall>P n m p1 p2 s1 s2 s'.
            genCandiPairSet s = Inr P \<and> (n, m) \<in> set P \<and>
            addNewPair s n m p1 p2 s1 s2 = Inr s' \<longrightarrow>
              card (M1 s') = card (M1 s) + 1 \<and> int (card (M1 s')) \<le> vertex_count G1)"
proof -
  have inv: "core_inv s" using r by (rule reachable_core_inv)
  have v0: "0 \<le> vertex_count G1" using w1 by (simp add: wf_graph_def)
  from reachable_sized[OF r v0] have len: "int (length (core_1 s)) = vertex_count G1" by simp
  have 1: "solve G1 G2 s \<noteq> Inl Diverges"
    using no_div_solve[OF w1 w2, of s] by (simp add: no_div_def)
  have 2: "int (mu s) = vertex_count G1 - int (card (M1 s))"
    using mu_core_inv[OF inv] len by linarith
  have 3: "card (M1 s') = card (M1 s) + 1 \<and> int (card (M1 s')) \<le> vertex_count G1"
    if gen: "genCandiPairSet s = Inr P" and mem: "(n, m) \<in> set P"
      and add: "addNewPair s n m p1 p2 s1 s2 = Inr s'" for P n m p1 p2 s1 s2 s'
  proof -
    have g: "card (M1 s') = Suc (card (M1 s))" by (rule extension_grows_M1[OF inv gen mem add])
    from genCandi_fresh[OF inv gen mem] have n: "n \<in> unmapped (core_1 s)" by simp
    have "m \<in> unmapped (core_2 s)"
      using genCandi_fresh[OF inv gen mem] add by (auto simp: addNewPair_Inr in_range_def)
    then have inv': "core_inv s'" by (rule core_inv_addNewPair[OF inv n _ add])
    have "length (core_1 s') = length (core_1 s)" using add by (simp add: addNewPair_Inr)
    with mu_core_inv[OF inv'] len have "int (card (M1 s')) \<le> vertex_count G1" by linarith
    with g show ?thesis by simp
  qed
  from 1 2 3 show ?thesis by blast
qed

theorem solve_terminates_witness:
  "wf_graph fan1 \<and> wf_graph fan2 \<and> reachable fan1 fan2 False (newState 3 False) \<and>
   solve fan1 fan2 (newState 3 False) \<noteq> Inl Diverges \<and>
   int (mu (newState 3 False)) = 3 - int (card (M1 (newState 3 False))) \<and>
   genCandiPairSet (newState 3 False) = Inr [(0, 2), (1, 2), (2, 2)] \<and>
   addNewPair (newState 3 False) 2 2 (pred fan1 ! 2) (pred fan2 ! 2) (succ fan1 ! 2) (succ fan2 ! 2)
     = Inr fan_state \<and>
   card (M1 fan_state) = card (M1 (newState 3 False)) + 1 \<and> int (card (M1 fan_state)) \<le> 3"
proof -
  have v: "vertex_count fan1 = 3" by (simp add: fan1_def)
  have r: "reachable fan1 fan2 False (newState 3 False)"
    using reachable.start[of fan1 fan2 False] by (simp add: v)
  have g: "genCandiPairSet (newState 3 False) = Inr [(0, 2), (1, 2), (2, 2)]" by code_simp
  have m: "(2, 2) \<in> set [(0, 2), (1, 2), (2::int, 2::int)]" by simp
  have a: "addNewPair (newState 3 False) 2 2 (pred fan1 ! 2) (pred fan2 ! 2)
     (succ fan1 ! 2) (succ fan2 ! 2) = Inr fan_state"
    using fan_state_reached by simp
  from solve_terminates[OF wf_fan r] g m a
  have "solve fan1 fan2 (newState 3 False) \<noteq> Inl Diverges"
    "int (mu (newState 3 False)) = 3 - int (card (M1 (newState 3 False)))"
    "card (M1 fan_state) = card (M1 (newState 3 False)) + 1 \<and> int (card (M1 fan_state)) \<le> 3"
    unfolding v by blast+
  with wf_fan r g a show ?thesis by simp
qed

text \<open>
  C9 (frame property of the search). For every stack of states, every position \<open>a\<close> in
  it and every depth bound above the measure of the state at \<open>a\<close>, the call of \<open>solve\<close> on
  that state returns with the stack as it was: neither the caller's state nor any other
  state on the stack is changed, every clone is gone. Its answer is that of the function
  \<open>solve\<close> of the state alone.
\<close>

theorem solve_leaves_frames_unchanged:
  assumes "a < length fs" "mu (fs ! a) < d"
  shows "solve_frames d G1 G2 fs a = Some (solve G1 G2 (fs ! a), fs)"
  using assms
proof (induction d arbitrary: fs a)
  case 0
  then show ?case by simp
next
  case (Suc d)
  show ?case
  proof (cases "int (card (M1 (fs ! a))) = s_vertex_count (fs ! a)")
    case True
    then show ?thesis using Suc.prems by (simp add: solve_unfold)
  next
    case False
    show ?thesis
    proof (cases "genCandiPairSet (fs ! a)")
      case (Inl e)
      then show ?thesis using False Suc.prems by (simp add: solve_unfold)
    next
      case (Inr P)
      have "solve_frames d G1 G2 (fs @ [s']) (length fs) = Some (solve G1 G2 s', fs @ [s'])"
        if "(n, m) \<in> set P" "addNewPair (fs ! a) n m p1 p2 s1 s2 = Inr s'" for n m p1 p2 s1 s2 s'
      proof -
        have "mu s' < mu (fs ! a)" by (rule mu_decreases[OF Inr that])
        with Suc.prems have "mu ((fs @ [s']) ! length fs) < d" by simp
        then have "solve_frames d G1 G2 (fs @ [s']) (length fs)
            = Some (solve G1 G2 ((fs @ [s']) ! length fs), fs @ [s'])"
          by (intro Suc.IH) simp_all
        then show ?thesis by simp
      qed
      then have "try_frames (solve_frames d G1 G2) G1 G2 a P fs
          = Some (first_success (attempt G1 G2 (fs ! a)) P, fs)"
        using Suc.prems(1) by (intro try_frames_eq) auto
      then show ?thesis using False Inr Suc.prems by (simp add: solve_unfold)
    qed
  qed
qed

theorem solve_leaves_frames_unchanged_witness:
  "(0::nat) < length [newState 3 False] \<and> mu ([newState 3 False] ! 0) < 4 \<and>
   solve_frames 4 fan1 fan2 [newState 3 False] 0
     = Some (solve fan1 fan2 (newState 3 False), [newState 3 False]) \<and>
   solve fan1 fan2 (newState 3 False) = Inr False"
proof -
  have "mu (newState 3 False) + card (M1 (newState 3 False)) = length (core_1 (newState 3 False))"
    by (rule mu_core_inv[OF core_inv_newState])
  then have m: "mu ([newState 3 False] ! 0) < 4" by (simp add: newState_def)
  have l: "(0::nat) < length [newState 3 False]" by simp
  have v: "solve fan1 fan2 (newState 3 False) = Inr False" by code_simp
  from solve_leaves_frames_unchanged[OF l m, of fan1 fan2] l m v show ?thesis by simp
qed

text \<open>
  C10 (candidate pairs are fresh). In every state of the search tree, every pair \<open>(n, m)\<close>
  that \<open>genCandiPairSet\<close> emits has \<open>n\<close> outside \<open>M1\<close>, with \<open>core_1[n]\<close> unmapped,
  and \<open>m\<close> outside \<open>M2\<close>; and where \<open>m\<close> is an index of \<open>core_2\<close> at all, as it is on
  every extension that \<open>addNewPair\<close> performs, \<open>core_2[m]\<close> is unmapped too.
\<close>

theorem candidate_pairs_are_fresh:
  assumes "reachable G1 G2 sub s" "genCandiPairSet s = Inr P" "(n, m) \<in> set P"
  shows "n \<notin> M1 s \<and> in_range (core_1 s) n \<and> core_1 s ! nat n = NULL_VIndex \<and> m \<notin> M2 s \<and>
         (in_range (core_2 s) m \<longrightarrow> core_2 s ! nat m = NULL_VIndex)"
proof -
  have inv: "core_inv s" using assms(1) by (rule reachable_core_inv)
  from genCandi_fresh[OF inv assms(2,3)]
  have n: "n \<in> unmapped (core_1 s)" and m: "m = - 1 \<or> m \<in> unmapped (core_2 s)" by simp_all
  from inv have M: "M1 s = mapped (core_1 s)" "M2 s = mapped (core_2 s)"
    by (simp_all add: core_inv_def)
  from n have "n \<notin> M1 s" "in_range (core_1 s) n" "core_1 s ! nat n = - 1"
    by (simp_all add: M mapped_def unmapped_def)
  moreover from m have "m \<notin> M2 s" "in_range (core_2 s) m \<longrightarrow> core_2 s ! nat m = - 1"
    by (auto simp: M mapped_def unmapped_def in_range_def)
  ultimately show ?thesis by simp
qed

theorem candidate_pairs_are_fresh_witness:
  "reachable fan1 fan2 False fan_state \<and> genCandiPairSet fan_state = Inr [(0, 1), (1, 1)] \<and>
   0 \<notin> M1 fan_state \<and> in_range (core_1 fan_state) 0 \<and> core_1 fan_state ! nat 0 = NULL_VIndex \<and>
   1 \<notin> M2 fan_state \<and> core_2 fan_state ! nat 1 = NULL_VIndex"
proof -
  have g: "genCandiPairSet fan_state = Inr [(0, 1), (1, 1)]" using fan_state_reached by simp
  have r: "in_range (core_2 fan_state) 1" by (simp add: fan_state_def in_range_def)
  show ?thesis
    using candidate_pairs_are_fresh[OF fan_state_reachable g, of 0 1] fan_state_reachable g r
    by simp
qed

end
